theory Spec2Isabelle
  imports Complex_Main
begin

section \<open>JavaScript numbers\<close>

text \<open>
  A JavaScript number is an IEEE 754 double: a finite value, an infinity (\<open>True\<close> for
  the positive one) or \<open>NaN\<close>. A finite double is given by the real number it
  denotes (the two zeros are not told apart; none of the operations used here does).
  An arithmetic operation computes the exact result and rounds it to the nearest
  double, ties to the even significand; a result that rounds to \<open>2^1024\<close> or beyond
  is an infinity. Temperatures and queue values are such numbers. Clock readings and
  durations in milliseconds are integers and are modelled as \<open>int\<close>.
\<close>

datatype number = Num real | Infinity bool | NaN

definition pow2 :: "int \<Rightarrow> real" where
  "pow2 e = (if 0 \<le> e then 2 ^ nat e else 1 / 2 ^ nat (- e))"

text \<open>
  The exponent of a magnitude \<open>a\<close>: the greatest \<open>e\<close> from \<open>-1022\<close> to \<open>1024\<close>
  with \<open>2^e \<le> a\<close>, and \<open>-1022\<close> for the subnormal magnitudes.
\<close>

fun exponent_from :: "nat \<Rightarrow> real \<Rightarrow> int" where
  "exponent_from 0 a = - 1022"
| "exponent_from (Suc k) a =
     (if pow2 (int (Suc k) - 1022) \<le> a then int (Suc k) - 1022 else exponent_from k a)"

definition exponent :: "real \<Rightarrow> int" where
  "exponent a = exponent_from 2046 a"

definition round_half_even :: "real \<Rightarrow> int" where
  "round_half_even m =
     (if m - of_int \<lfloor>m\<rfloor> < 1 / 2 then \<lfloor>m\<rfloor>
      else if 1 / 2 < m - of_int \<lfloor>m\<rfloor> then \<lfloor>m\<rfloor> + 1
      else if even \<lfloor>m\<rfloor> then \<lfloor>m\<rfloor> else \<lfloor>m\<rfloor> + 1)"

text \<open>Rounding of a real to a double: a multiple of the unit in the last of 53 binary places.\<close>

definition round_double :: "real \<Rightarrow> number" where
  "round_double x =
     (let u = pow2 (exponent \<bar>x\<bar> - 52);
          y = of_int (round_half_even (x / u)) * u
      in if pow2 1024 \<le> \<bar>y\<bar> then Infinity (0 < x) else Num y)"

fun num_neg :: "number \<Rightarrow> number" where
  "num_neg (Num x) = Num (- x)"
| "num_neg (Infinity s) = Infinity (\<not> s)"
| "num_neg NaN = NaN"

fun num_add :: "number \<Rightarrow> number \<Rightarrow> number" where
  "num_add (Num x) (Num y) = round_double (x + y)"
| "num_add (Num x) (Infinity s) = Infinity s"
| "num_add (Infinity s) (Num y) = Infinity s"
| "num_add (Infinity s) (Infinity t) = (if s = t then Infinity s else NaN)"
| "num_add NaN b = NaN"
| "num_add a NaN = NaN"

definition num_sub :: "number \<Rightarrow> number \<Rightarrow> number" where
  "num_sub a b = num_add a (num_neg b)"

fun num_mul :: "number \<Rightarrow> number \<Rightarrow> number" where
  "num_mul (Num x) (Num y) = round_double (x * y)"
| "num_mul (Num x) (Infinity s) = (if x = 0 then NaN else Infinity (s = (0 < x)))"
| "num_mul (Infinity s) (Num y) = (if y = 0 then NaN else Infinity (s = (0 < y)))"
| "num_mul (Infinity s) (Infinity t) = Infinity (s = t)"
| "num_mul NaN b = NaN"
| "num_mul a NaN = NaN"

text \<open>\<open>Math.abs\<close>, \<open>Math.floor\<close> and the comparison \<open>a > b\<close>.\<close>

fun num_abs :: "number \<Rightarrow> number" where
  "num_abs (Num x) = Num \<bar>x\<bar>"
| "num_abs (Infinity s) = Infinity True"
| "num_abs NaN = NaN"

fun num_floor :: "number \<Rightarrow> number" where
  "num_floor (Num x) = Num (of_int \<lfloor>x\<rfloor>)"
| "num_floor (Infinity s) = Infinity s"
| "num_floor NaN = NaN"

fun num_gt :: "number \<Rightarrow> number \<Rightarrow> bool" where
  "num_gt (Num x) (Num y) = (y < x)"
| "num_gt (Num x) (Infinity s) = (\<not> s)"
| "num_gt (Infinity s) (Num y) = s"
| "num_gt (Infinity s) (Infinity t) = (s \<and> \<not> t)"
| "num_gt NaN b = False"
| "num_gt a NaN = False"

text \<open>
  The literal \<open>0.1\<close> and the quotient \<open>9 / 5\<close> of the source: the doubles nearest to
  one tenth and to nine fifths.
\<close>

definition tenth :: number where
  "tenth = round_double (1 / 10)"

definition nine_fifths :: number where
  "nine_fifths = round_double (9 / 5)"

section \<open>The remote device status (sleepme/client)\<close>

text \<open>
  The gateway's value objects, restricted to the fields that the cache and the write
  queue read.
\<close>

datatype thermal_status = Standby | Active

record Control =
  set_temperature_c :: number
  set_temperature_f :: number
  thermal_control_status :: thermal_status

record DeviceStatus =
  control :: Control
  water_temperature_c :: number
  is_water_low :: bool

record ClientResponse =
  data :: DeviceStatus
  status :: nat

section \<open>ReadThroughCache (readThroughCache.ts)\<close>

text \<open>
  A rejected fetch carries either an Axios error (with the HTTP status of its response,
  when it has one) or a general error.
\<close>

datatype fetch_error = AxiosError "nat option" string | GeneralError string

datatype error_message = ApiErrorMessage "nat option" string | GeneralErrorMessage string

text \<open>
  A promise of the chain \<open>client.getDeviceStatus(id).then(..).catch(..)\<close> is pending
  until one of the two callbacks has run; it is fulfilled with what the callback
  returns and rejected with what the callback throws.
  Promises are identified by their position in
  the list of all promises the cache has created, so that "the same in-flight request"
  is equality of positions. What \<open>get\<close> hands to its caller is either a promise
  that is already resolved with the cached value or the handle stored in
  \<open>this.request\<close>.
\<close>

datatype thrown = ReferenceError string

datatype promise = Pending | Fulfilled "ClientResponse option" | Rejected thrown

datatype promise_ref = Resolved ClientResponse | Handle nat

text \<open>
  The fields of the class; \<open>cachedValue\<close> is the field \<open>value\<close>. The last field
  is not a field of the class: it is the list of promises created so far, one for each
  call of \<open>client.getDeviceStatus\<close>. The logger is an output-only collaborator and is
  left out of the cache.
\<close>

record ReadThroughCache =
  cachedValue :: "ClientResponse option"
  request :: "nat option"
  responseTimestamp :: "int option"
  responseExpireAt :: "int option"
  errorCount :: nat
  lastErrorCode :: "nat option"
  lastErrorMessage :: "error_message option"
  expirationMS :: int
  promises :: "promise list"

definition default_expirationMS :: int where
  "default_expirationMS = 1000"

definition newReadThroughCache :: "int \<Rightarrow> ReadThroughCache" where
  "newReadThroughCache ms =
     \<lparr>cachedValue = None, request = None, responseTimestamp = None,
      responseExpireAt = None, errorCount = 0, lastErrorCode = None,
      lastErrorMessage = None, expirationMS = ms, promises = []\<rparr>"

text \<open>The test of the first \<open>if\<close> of \<open>get\<close>: a value is cached and has not expired.\<close>

definition cacheValid :: "ReadThroughCache \<Rightarrow> int \<Rightarrow> bool" where
  "cacheValid c now =
     (case cachedValue c of
        None \<Rightarrow> False
      | Some v \<Rightarrow> (case responseExpireAt c of None \<Rightarrow> False | Some e \<Rightarrow> now < e))"

text \<open>
  \<open>get()\<close> at clock reading \<open>now\<close>: the synchronous part, up to the return of the
  promise. A new request appends a pending promise and stores its handle.
\<close>

definition get :: "ReadThroughCache \<Rightarrow> int \<Rightarrow> promise_ref \<times> ReadThroughCache" where
  "get c now =
     (if cacheValid c now then (Resolved (the (cachedValue c)), c)
      else (case request c of
              Some p \<Rightarrow> (Handle p, c)
            | None \<Rightarrow>
                (Handle (length (promises c)),
                 c\<lparr>request := Some (length (promises c)),
                   promises := promises c @ [Pending]\<rparr>)))"

text \<open>The \<open>.then\<close> callback of the fetch behind promise \<open>p\<close>, run at \<open>now\<close>.\<close>

definition fetch_then :: "ReadThroughCache \<Rightarrow> nat \<Rightarrow> ClientResponse \<Rightarrow> int \<Rightarrow> ReadThroughCache" where
  "fetch_then c p response now =
     c\<lparr>cachedValue := Some response,
       responseTimestamp := Some now,
       responseExpireAt := Some (now + expirationMS c),
       request := None,
       errorCount := 0,
       lastErrorCode := None,
       lastErrorMessage := None,
       promises := (promises c)[p := Fulfilled (Some response)]\<rparr>"

text \<open>
  \<open>Math.min(Math.max(Math.pow(2, errorCount) * expirationMS, 5000), 60 * 1000 * 5)\<close>
\<close>

definition backoffDuration :: "nat \<Rightarrow> int \<Rightarrow> int" where
  "backoffDuration n ms = min (max (2 ^ n * ms) 5000) (60 * 1000 * 5)"

definition record_error :: "ReadThroughCache \<Rightarrow> fetch_error \<Rightarrow> ReadThroughCache" where
  "record_error c err =
     (case err of
        AxiosError code msg \<Rightarrow>
          c\<lparr>lastErrorCode := code, lastErrorMessage := Some (ApiErrorMessage code msg)\<rparr>
      | GeneralError msg \<Rightarrow>
          c\<lparr>lastErrorMessage := Some (GeneralErrorMessage msg)\<rparr>)"

text \<open>
  The \<open>.catch\<close> callback of the fetch behind promise \<open>p\<close>, run at \<open>now\<close>. After
  \<open>this.errorCount += 1\<close> it evaluates \<open>axios.isAxiosError(err)\<close>. The module imports
  from the HTTP library only the type \<open>AxiosError\<close>, which is erased; the name
  \<open>axios\<close> has no binding in it, so the evaluation throws a \<open>ReferenceError\<close> and the
  callback ends there: the promise of the chain is rejected, and no other field is
  written.
\<close>

definition fetch_catch :: "ReadThroughCache \<Rightarrow> nat \<Rightarrow> fetch_error \<Rightarrow> int \<Rightarrow> ReadThroughCache" where
  "fetch_catch c p err now =
     c\<lparr>errorCount := errorCount c + 1,
       promises := (promises c)[p := Rejected (ReferenceError ''axios is not defined'')]\<rparr>"

text \<open>
  The rest of the callback, which is never reached: what it would do from the test
  \<open>axios.isAxiosError(err)\<close> on, with that test the test for the first constructor.
  It is kept for comparison.
\<close>

definition fetch_catch_unreached :: "ReadThroughCache \<Rightarrow> nat \<Rightarrow> fetch_error \<Rightarrow> int \<Rightarrow> ReadThroughCache" where
  "fetch_catch_unreached c p err now =
     (let c1 = record_error (c\<lparr>errorCount := errorCount c + 1\<rparr>) err in
      case cachedValue c1 of
        Some v \<Rightarrow>
          c1\<lparr>responseExpireAt := Some (now + backoffDuration (errorCount c1) (expirationMS c1)),
             promises := (promises c1)[p := Fulfilled (Some v)]\<rparr>
      | None \<Rightarrow>
          c1\<lparr>request := None,
             promises := (promises c1)[p := Fulfilled None]\<rparr>)"

text \<open>The fetch behind promise \<open>p\<close> completes: with a response or with an error.\<close>

definition settle :: "ReadThroughCache \<Rightarrow> nat \<Rightarrow> fetch_error + ClientResponse \<Rightarrow> int \<Rightarrow> ReadThroughCache" where
  "settle c p outcome now =
     (case outcome of
        Inr response \<Rightarrow> fetch_then c p response now
      | Inl err \<Rightarrow> fetch_catch c p err now)"

text \<open>
  The class body declares \<open>refresh()\<close> twice. A later method of a class body replaces an
  earlier one of the same name, so the method that runs is the second one, which drops
  the stored handle before it calls \<open>get\<close>; it is modelled as \<open>refresh\<close>. The first
  declaration, which returns the stored handle when there is one, never runs; it is
  kept as \<open>refresh_shadowed\<close> for comparison.
\<close>

definition refresh :: "ReadThroughCache \<Rightarrow> int \<Rightarrow> promise_ref \<times> ReadThroughCache" where
  "refresh c now = get (c\<lparr>request := None, responseExpireAt := None\<rparr>) now"

definition refresh_shadowed :: "ReadThroughCache \<Rightarrow> int \<Rightarrow> promise_ref \<times> ReadThroughCache" where
  "refresh_shadowed c now =
     (case request c of
        Some p \<Rightarrow> (Handle p, c)
      | None \<Rightarrow> get (c\<lparr>responseExpireAt := None\<rparr>) now)"

definition hasError :: "ReadThroughCache \<Rightarrow> bool" where
  "hasError c = (errorCount c > 0)"

text \<open>What a caller that awaits the returned promise sees in state \<open>c\<close>.\<close>

definition awaited :: "ReadThroughCache \<Rightarrow> promise_ref \<Rightarrow> promise" where
  "awaited c r =
     (case r of
        Resolved v \<Rightarrow> Fulfilled (Some v)
      | Handle p \<Rightarrow> (if p < length (promises c) then promises c ! p else Pending))"

text \<open>The number of fetches that have been started and have not completed.\<close>

definition outstanding :: "ReadThroughCache \<Rightarrow> nat" where
  "outstanding c = length (filter (\<lambda>x. x = Pending) (promises c))"


text \<open>The spec's clamp, for comparison with \<open>backoffDuration\<close>.\<close>

definition clamp_spec :: "int \<Rightarrow> int \<Rightarrow> int \<Rightarrow> int" where
  "clamp_spec x lo hi = (if x < lo then lo else if hi < x then hi else x)"

text \<open>
  Histories of one cache: calls of \<open>get\<close> and \<open>refresh\<close>, and completions of
  fetches. A fetch can complete only while its promise is pending.
\<close>

datatype cache_event =
    Get int
  | Refresh int
  | Settle nat "fetch_error + ClientResponse" int


fun step :: "ReadThroughCache \<Rightarrow> cache_event \<Rightarrow> ReadThroughCache option" where
  "step c (Get t) = Some (snd (get c t))"
| "step c (Refresh t) = Some (snd (refresh c t))"
| "step c (Settle p outcome t) =
     (if p < length (promises c) \<and> promises c ! p = Pending
      then Some (settle c p outcome t) else None)"

fun run :: "ReadThroughCache \<Rightarrow> cache_event list \<Rightarrow> ReadThroughCache option" where
  "run c [] = Some c"
| "run c (e # es) = (case step c e of None \<Rightarrow> None | Some c1 \<Rightarrow> run c1 es)"



text \<open>Sample values: a response, and a cache whose value has expired while its second fetch is in flight.\<close>

definition sampleResponse :: "number \<Rightarrow> thermal_status \<Rightarrow> ClientResponse" where
  "sampleResponse t m =
     \<lparr>data = \<lparr>control = \<lparr>set_temperature_c = t,
                             set_temperature_f = num_add (num_mul t nine_fifths) (Num 32),
                             thermal_control_status = m\<rparr>,
              water_temperature_c = Num 25, is_water_low = False\<rparr>,
      status = 200\<rparr>"

definition staleCache :: ReadThroughCache where
  "staleCache =
     snd (get (fetch_then (snd (get (newReadThroughCache 1000) 0)) 0 (sampleResponse (Num 20) Active) 10) 2000)"

section \<open>ApiQueue (queue/apiQueue.ts)\<close>

text \<open>
  A queue item; \<open>item_id\<close>, \<open>item_type\<close> and \<open>item_value\<close> are the fields
  \<open>id\<close>, \<open>type\<close> and \<open>value\<close>. The value is the number that the setters pass: a
  Celsius temperature, or the target heating state (0 for off).
\<close>

datatype QueueItemType = Temperature | State

record QueueItem =
  item_id :: string
  item_type :: QueueItemType
  item_value :: number
  timestamp :: int

record DeviceDesiredState =
  targetTemperatureC :: "number option"
  targetState :: "thermal_status option"
  lastModified :: int
  verificationTimerId :: "nat option"

text \<open>The two write operations of the client, with their arguments.\<close>

datatype gateway_call =
    SetTemperatureFahrenheit string number
  | SetThermalControlStatus string thermal_status

text \<open>
  What the queue writes to the logger at the levels \<open>warn\<close> and \<open>error\<close>, each
  with the values its message is built from.
\<close>

datatype log_entry =
    ErrorRequestFailed nat nat
  | ErrorProcessing string
  | WarnNoCache string
  | WarnNoResponse string
  | WarnTemperatureMismatch string number number
  | WarnStateMismatch string thermal_status thermal_status
  | ErrorVerification string

text \<open>
  \<open>processQueue\<close> is an asynchronous function. Between two of its steps it is
  suspended at one of its \<open>await\<close>s or has been rescheduled by \<open>setImmediate\<close>:
  it waits for the interval timer (due at the given time), for \<open>sendRequest\<close> of the
  item it dequeued (at the given time), or for the \<open>setImmediate\<close> callback; or no
  run of it is pending.
\<close>

datatype loop_state =
    Idle
  | AwaitGate int
  | AwaitSend QueueItem int
  | AwaitImmediate

text \<open>
  The fields of the class, then the state of the runtime. The \<open>Map\<close> of pending
  items is the list of its values in insertion order; the key of an entry is never
  stored apart from its item, since every \<open>set\<close> and \<open>delete\<close> computes it as
  \<open>`${id}:${type}`\<close> from the item (\<open>key_of\<close>). \<open>cachesById\<close> holds the identity of
  the registered cache. \<open>loop\<close> is where \<open>processQueue\<close> is suspended, \<open>timers\<close> are
  the pending verification timers (handle, device, due time). \<open>dispatched\<close> is a
  history: every item handed to \<open>sendRequest\<close>, with the time at which that
  happened.
\<close>

record ApiQueue =
  queue :: "QueueItem list"
  processing :: bool
  lastProcessTime :: int
  deviceStates :: "string \<Rightarrow> DeviceDesiredState option"
  cachesById :: "string \<Rightarrow> nat option"
  intervalMs :: int
  maxRetries :: nat
  verificationDelayMs :: int
  loop :: loop_state
  timers :: "(nat \<times> string \<times> int) list"
  nextTimerId :: nat
  dispatched :: "(int \<times> QueueItem) list"
  logged :: "log_entry list"

definition newApiQueue :: "int \<Rightarrow> nat \<Rightarrow> int \<Rightarrow> ApiQueue" where
  "newApiQueue interval retries delay =
     \<lparr>queue = [], processing = False, lastProcessTime = 0,
      deviceStates = (\<lambda>d. None), cachesById = (\<lambda>d. None),
      intervalMs = interval, maxRetries = retries, verificationDelayMs = delay,
      loop = Idle, timers = [], nextTimerId = 0, dispatched = [],
      logged = []\<rparr>"

definition defaultApiQueue :: ApiQueue where
  "defaultApiQueue = newApiQueue 2000 3 30000"

fun type_name :: "QueueItemType \<Rightarrow> string" where
  "type_name Temperature = ''temperature''"
| "type_name State = ''state''"

definition queue_key :: "string \<Rightarrow> QueueItemType \<Rightarrow> string" where
  "queue_key deviceId ty = deviceId @ '':'' @ type_name ty"

definition key_of :: "QueueItem \<Rightarrow> string" where
  "key_of item = queue_key (item_id item) (item_type item)"

definition queue_has :: "string \<Rightarrow> QueueItem list \<Rightarrow> bool" where
  "queue_has k q = (k \<in> set (map key_of q))"

text \<open>
  \<open>Map.set\<close> replaces the value of an existing key in place and appends a new key;
  \<open>Map.delete\<close> removes the key.
\<close>

fun queue_set :: "QueueItem \<Rightarrow> QueueItem list \<Rightarrow> QueueItem list" where
  "queue_set item [] = [item]"
| "queue_set item (x # xs) =
     (if key_of x = key_of item then item # xs else x # queue_set item xs)"

definition queue_delete :: "string \<Rightarrow> QueueItem list \<Rightarrow> QueueItem list" where
  "queue_delete k q = filter (\<lambda>i. key_of i \<noteq> k) q"

text \<open>
  \<open>getOldestItem\<close>: the loop over the values with a strict comparison, starting from
  no item and the timestamp \<open>Infinity\<close>.
\<close>

fun oldest_of :: "QueueItem option \<Rightarrow> QueueItem list \<Rightarrow> QueueItem option" where
  "oldest_of best [] = best"
| "oldest_of best (item # items) =
     (case best of
        None \<Rightarrow> oldest_of (Some item) items
      | Some b \<Rightarrow>
          (if timestamp item < timestamp b then oldest_of (Some item) items
           else oldest_of (Some b) items))"

definition getOldestItem :: "QueueItem list \<Rightarrow> QueueItem option" where
  "getOldestItem q = oldest_of None q"

definition registerCache :: "ApiQueue \<Rightarrow> string \<Rightarrow> nat \<Rightarrow> ApiQueue" where
  "registerCache q deviceId cache = q\<lparr>cachesById := (cachesById q)(deviceId := Some cache)\<rparr>"

definition updateDesiredState :: "ApiQueue \<Rightarrow> string \<Rightarrow> QueueItemType \<Rightarrow> number \<Rightarrow> int \<Rightarrow> ApiQueue" where
  "updateDesiredState q deviceId ty v now =
     (let st = (case deviceStates q deviceId of
                  Some s \<Rightarrow> s
                | None \<Rightarrow> \<lparr>targetTemperatureC = None, targetState = None,
                            lastModified = now, verificationTimerId = None\<rparr>);
          st1 = (case ty of
                   Temperature \<Rightarrow> st\<lparr>targetTemperatureC := Some v\<rparr>
                 | State \<Rightarrow> st\<lparr>targetState := Some (if v = Num 0 then Standby else Active)\<rparr>)
      in q\<lparr>deviceStates := (deviceStates q)(deviceId := Some (st1\<lparr>lastModified := now\<rparr>))\<rparr>)"

definition clearTimeout :: "nat \<Rightarrow> (nat \<times> string \<times> int) list \<Rightarrow> (nat \<times> string \<times> int) list" where
  "clearTimeout tid ts = filter (\<lambda>t. fst t \<noteq> tid) ts"

definition scheduleVerification :: "ApiQueue \<Rightarrow> string \<Rightarrow> int \<Rightarrow> ApiQueue" where
  "scheduleVerification q deviceId now =
     (case deviceStates q deviceId of
        None \<Rightarrow> q
      | Some st \<Rightarrow>
          (let ts = (case verificationTimerId st of
                       Some tid \<Rightarrow> clearTimeout tid (timers q)
                     | None \<Rightarrow> timers q);
               tid = nextTimerId q
           in q\<lparr>timers := ts @ [(tid, deviceId, now + verificationDelayMs q)],
                nextTimerId := tid + 1,
                deviceStates :=
                  (deviceStates q)(deviceId := Some (st\<lparr>verificationTimerId := Some tid\<rparr>))\<rparr>))"

text \<open>
  \<open>processQueue\<close> in three parts. \<open>processQueue\<close> is its start, up to the wait for
  the interval timer, and runs on into \<open>processQueue_dispatch\<close> when there is nothing
  to wait for; \<open>processQueue_dispatch\<close> is the part after the wait, up to the call of
  \<open>sendRequest\<close>; \<open>processQueue_settled\<close> (below) is the part after
  \<open>sendRequest\<close> has returned or thrown, up to \<open>setImmediate\<close>.
\<close>

definition processQueue_dispatch :: "ApiQueue \<Rightarrow> int \<Rightarrow> ApiQueue" where
  "processQueue_dispatch q now =
     (case getOldestItem (queue q) of
        None \<Rightarrow> q\<lparr>processing := False, loop := Idle\<rparr>
      | Some oldestItem \<Rightarrow>
          q\<lparr>queue := queue_delete (key_of oldestItem) (queue q),
            loop := AwaitSend oldestItem now,
            dispatched := dispatched q @ [(now, oldestItem)]\<rparr>)"

definition processQueue :: "ApiQueue \<Rightarrow> int \<Rightarrow> ApiQueue" where
  "processQueue q now =
     (if length (queue q) = 0 then q\<lparr>processing := False, loop := Idle\<rparr>
      else
        (let q1 = q\<lparr>processing := True\<rparr>;
             timeToWait = max 0 (intervalMs q1 - (now - lastProcessTime q1))
         in if timeToWait > 0 then q1\<lparr>loop := AwaitGate (now + timeToWait)\<rparr>
            else processQueue_dispatch q1 now))"

definition enqueue :: "ApiQueue \<Rightarrow> string \<Rightarrow> QueueItemType \<Rightarrow> number \<Rightarrow> int \<Rightarrow> ApiQueue" where
  "enqueue q deviceId ty v now =
     (let queueItem = \<lparr>item_id = deviceId, item_type = ty, item_value = v, timestamp = now\<rparr>;
          q1 = q\<lparr>queue := queue_set queueItem (queue q)\<rparr>;
          q2 = updateDesiredState q1 deviceId ty v now;
          q3 = scheduleVerification q2 deviceId now
      in if \<not> processing q3 then processQueue q3 now else q3)"

text \<open>
  \<open>sendRequest\<close>. The gateway is given by its behaviour at each attempt (counted from 0):
  whether the call succeeds and how long it takes. The loop touches no field of the
  queue but the read-only \<open>maxRetries\<close>, so it is modelled as one function from the
  start time to the outcome: the calls made with their times, the back-off sleeps, the
  errors logged, and the time at which it returns or throws.
\<close>

record send_result =
  succeeded :: bool
  finished :: int
  calls :: "(int \<times> gateway_call) list"
  sleeps :: "int list"
  send_log :: "log_entry list"

definition gateway_call_of :: "QueueItem \<Rightarrow> gateway_call" where
  "gateway_call_of item =
     (case item_type item of
        Temperature \<Rightarrow>
          SetTemperatureFahrenheit (item_id item)
            (num_floor (num_add (num_mul (item_value item) nine_fifths) (Num 32)))
      | State \<Rightarrow>
          SetThermalControlStatus (item_id item)
            (if item_value item = Num 0 then Standby else Active))"

definition backoffMs :: "nat \<Rightarrow> int" where
  "backoffMs retries = min (1000 * 2 ^ retries) 10000"

function sendRequest_loop ::
  "nat \<Rightarrow> (nat \<Rightarrow> bool \<times> nat) \<Rightarrow> QueueItem \<Rightarrow> nat \<Rightarrow> int \<Rightarrow> send_result" where
  "sendRequest_loop maxR gw item retries now =
     (if retries < maxR then
        (if fst (gw retries) then
           \<lparr>succeeded = True, finished = now + int (snd (gw retries)),
            calls = [(now, gateway_call_of item)], sleeps = [], send_log = []\<rparr>
         else if retries + 1 < maxR then
           (let r = sendRequest_loop maxR gw item (retries + 1)
                      (now + int (snd (gw retries)) + backoffMs (retries + 1))
            in r\<lparr>calls := (now, gateway_call_of item) # calls r,
                 sleeps := backoffMs (retries + 1) # sleeps r,
                 send_log := ErrorRequestFailed (retries + 1) maxR # send_log r\<rparr>)
         else
           (let r = sendRequest_loop maxR gw item (retries + 1) (now + int (snd (gw retries)))
            in r\<lparr>calls := (now, gateway_call_of item) # calls r,
                 send_log := ErrorRequestFailed (retries + 1) maxR # send_log r\<rparr>))
      else \<lparr>succeeded = False, finished = now, calls = [], sleeps = [], send_log = []\<rparr>)"
  by pat_completeness auto

termination
  by (relation "measure (\<lambda>(maxR, gw, item, retries, now). maxR - retries)") auto

definition sendRequest ::
  "nat \<Rightarrow> (nat \<Rightarrow> bool \<times> nat) \<Rightarrow> QueueItem \<Rightarrow> int \<Rightarrow> send_result" where
  "sendRequest maxR gw item now = sendRequest_loop maxR gw item 0 now"

text \<open>
  \<open>processQueue\<close> after \<open>await this.sendRequest(oldestItem)\<close>, for the item it sent.
  The errors that \<open>sendRequest\<close> logged on the way are entered in the log here.
\<close>

definition processQueue_settled :: "ApiQueue \<Rightarrow> QueueItem \<Rightarrow> send_result \<Rightarrow> ApiQueue" where
  "processQueue_settled q oldestItem r =
     (if succeeded r then
        q\<lparr>lastProcessTime := finished r, logged := logged q @ send_log r, loop := AwaitImmediate\<rparr>
      else
        q\<lparr>logged := logged q @ send_log r @ [ErrorProcessing (key_of oldestItem)],
          loop := AwaitImmediate\<rparr>)"

text \<open>
  \<open>verifyDeviceState\<close> in two parts: up to \<open>await cache.refresh()\<close>, and from the
  settlement of that promise on: rejected (the \<open>catch\<close> block logs an error),
  fulfilled with null, or fulfilled with a response.
  The desired state is an object that \<open>updateDesiredState\<close> mutates in
  place, so the second part reads the device's entry as it is then, and reads it again
  after the first \<open>enqueue\<close>.
\<close>

datatype verify_outcome = NoDesiredState | Skipped | AwaitRefresh nat

definition verifyDeviceState_begin :: "ApiQueue \<Rightarrow> string \<Rightarrow> ApiQueue \<times> verify_outcome" where
  "verifyDeviceState_begin q deviceId =
     (case deviceStates q deviceId of
        None \<Rightarrow> (q, NoDesiredState)
      | Some desiredState \<Rightarrow>
          (let q1 = q\<lparr>deviceStates :=
                       (deviceStates q)(deviceId := Some (desiredState\<lparr>verificationTimerId := None\<rparr>))\<rparr>
           in case cachesById q1 deviceId of
                None \<Rightarrow> (q1\<lparr>logged := logged q1 @ [WarnNoCache deviceId]\<rparr>, Skipped)
              | Some cache \<Rightarrow> (q1, AwaitRefresh cache)))"

definition temperature_mismatch :: "DeviceDesiredState \<Rightarrow> DeviceStatus \<Rightarrow> bool" where
  "temperature_mismatch desiredState actualState =
     (case targetTemperatureC desiredState of
        None \<Rightarrow> False
      | Some t \<Rightarrow> num_gt (num_abs (num_sub (set_temperature_c (control actualState)) t)) tenth)"

definition state_mismatch :: "DeviceDesiredState \<Rightarrow> DeviceStatus \<Rightarrow> bool" where
  "state_mismatch desiredState actualState =
     (case targetState desiredState of
        None \<Rightarrow> False
      | Some m \<Rightarrow> thermal_control_status (control actualState) \<noteq> m)"

definition requeue_temperature :: "ApiQueue \<Rightarrow> string \<Rightarrow> DeviceStatus \<Rightarrow> int \<Rightarrow> ApiQueue" where
  "requeue_temperature q deviceId actualState now =
     (case deviceStates q deviceId of
        None \<Rightarrow> q
      | Some desiredState \<Rightarrow>
          (if temperature_mismatch desiredState actualState then
             enqueue
               (q\<lparr>logged := logged q @
                    [WarnTemperatureMismatch deviceId (the (targetTemperatureC desiredState))
                       (set_temperature_c (control actualState))]\<rparr>)
               deviceId Temperature (the (targetTemperatureC desiredState)) now
           else q))"

definition requeue_state :: "ApiQueue \<Rightarrow> string \<Rightarrow> DeviceStatus \<Rightarrow> int \<Rightarrow> ApiQueue" where
  "requeue_state q deviceId actualState now =
     (case deviceStates q deviceId of
        None \<Rightarrow> q
      | Some desiredState \<Rightarrow>
          (if state_mismatch desiredState actualState then
             enqueue
               (q\<lparr>logged := logged q @
                    [WarnStateMismatch deviceId (the (targetState desiredState))
                       (thermal_control_status (control actualState))]\<rparr>)
               deviceId State (if the (targetState desiredState) = Standby then Num 0 else Num 1) now
           else q))"

definition verifyDeviceState_resume ::
  "ApiQueue \<Rightarrow> string \<Rightarrow> thrown + ClientResponse option \<Rightarrow> int \<Rightarrow> ApiQueue" where
  "verifyDeviceState_resume q deviceId response now =
     (case response of
        Inl error \<Rightarrow> q\<lparr>logged := logged q @ [ErrorVerification deviceId]\<rparr>
      | Inr None \<Rightarrow> q\<lparr>logged := logged q @ [WarnNoResponse deviceId]\<rparr>
      | Inr (Some r) \<Rightarrow>
          requeue_state (requeue_temperature q deviceId (data r) now) deviceId (data r) now)"

text \<open>
  Histories of one queue. A step of the dispatch loop is possible only where the loop is
  suspended: the interval timer fires at or after its due time, \<open>sendRequest\<close>
  settles for the item that was sent (the event gives the gateway's behaviour during
  that send), the \<open>setImmediate\<close> callback runs. A verification timer fires at or after
  its due time.
\<close>

datatype queue_event =
    RegisterCache string nat
  | Enqueue string QueueItemType number int
  | GateElapsed int
  | SendSettled "nat \<Rightarrow> bool \<times> nat"
  | RunImmediate int
  | VerifyTimer nat int
  | VerifyResume string "thrown + ClientResponse option" int

fun timer_device :: "nat \<Rightarrow> int \<Rightarrow> (nat \<times> string \<times> int) list \<Rightarrow> string option" where
  "timer_device tid now [] = None"
| "timer_device tid now ((i, d, due) # ts) =
     (if i = tid \<and> due \<le> now then Some d else timer_device tid now ts)"

fun qstep :: "ApiQueue \<Rightarrow> queue_event \<Rightarrow> ApiQueue option" where
  "qstep q (RegisterCache d c) = Some (registerCache q d c)"
| "qstep q (Enqueue d ty v now) = Some (enqueue q d ty v now)"
| "qstep q (GateElapsed now) =
     (case loop q of
        AwaitGate due \<Rightarrow> if due \<le> now then Some (processQueue_dispatch q now) else None
      | _ \<Rightarrow> None)"
| "qstep q (SendSettled gw) =
     (case loop q of
        AwaitSend item t0 \<Rightarrow>
          Some (processQueue_settled q item (sendRequest (maxRetries q) gw item t0))
      | _ \<Rightarrow> None)"
| "qstep q (RunImmediate now) =
     (case loop q of
        AwaitImmediate \<Rightarrow> Some (processQueue q now)
      | _ \<Rightarrow> None)"
| "qstep q (VerifyTimer tid now) =
     (case timer_device tid now (timers q) of
        None \<Rightarrow> None
      | Some d \<Rightarrow>
          Some (fst (verifyDeviceState_begin (q\<lparr>timers := clearTimeout tid (timers q)\<rparr>) d)))"
| "qstep q (VerifyResume d response now) = Some (verifyDeviceState_resume q d response now)"

fun qrun :: "ApiQueue \<Rightarrow> queue_event list \<Rightarrow> ApiQueue option" where
  "qrun q [] = Some q"
| "qrun q (e # es) = (case qstep q e of None \<Rightarrow> None | Some q1 \<Rightarrow> qrun q1 es)"

text \<open>A sequence of enqueues for one device and field, each with its value and time.\<close>

fun enqueue_all :: "ApiQueue \<Rightarrow> string \<Rightarrow> QueueItemType \<Rightarrow> (number \<times> int) list \<Rightarrow> ApiQueue" where
  "enqueue_all q d ty [] = q"
| "enqueue_all q d ty ((v, t) # vts) = enqueue_all (enqueue q d ty v t) d ty vts"

text \<open>The state on which \<open>enqueue\<close> decides whether to start the dispatch loop.\<close>

definition enqueue_stored :: "ApiQueue \<Rightarrow> string \<Rightarrow> QueueItemType \<Rightarrow> number \<Rightarrow> int \<Rightarrow> ApiQueue" where
  "enqueue_stored q d ty v now =
     scheduleVerification
       (updateDesiredState
          (q\<lparr>queue := queue_set \<lparr>item_id = d, item_type = ty, item_value = v, timestamp = now\<rparr> (queue q)\<rparr>)
          d ty v now)
       d now"

text \<open>The interval timer, if the loop waits for it, fires exactly when it is due.\<close>

definition after_gate :: "ApiQueue \<Rightarrow> ApiQueue" where
  "after_gate q = (case loop q of AwaitGate due \<Rightarrow> processQueue_dispatch q due | _ \<Rightarrow> q)"

text \<open>
  The dispatch loop is under way whenever \<open>processing\<close> is set, and nothing is
  pending while it is not set.
\<close>

definition loop_consistent :: "ApiQueue \<Rightarrow> bool" where
  "loop_consistent q =
     ((processing q \<longrightarrow> loop q \<noteq> Idle) \<and> (\<not> processing q \<longrightarrow> queue q = []))"

text \<open>
  Sample values: a gateway on which every call fails at once, a queue with an interval
  of ten seconds, and queues with a desired state
  for a device with and without a registered cache.
\<close>

definition sampleItem :: "string \<Rightarrow> QueueItemType \<Rightarrow> number \<Rightarrow> int \<Rightarrow> QueueItem" where
  "sampleItem d ty v t = \<lparr>item_id = d, item_type = ty, item_value = v, timestamp = t\<rparr>"

definition always_failing :: "nat \<Rightarrow> bool \<times> nat" where
  "always_failing k = (False, 0)"

definition slowQueue :: ApiQueue where
  "slowQueue = newApiQueue 10000 3 30000"

definition verifyQueue :: ApiQueue where
  "verifyQueue =
     enqueue (enqueue (registerCache defaultApiQueue ''A'' 7) ''A'' Temperature (Num 22) 100000)
       ''A'' State (Num 1) 100001"

definition unregisteredQueue :: ApiQueue where
  "unregisteredQueue = enqueue defaultApiQueue ''B'' State (Num 0) 100000"

section \<open>The dispatch loop run to the end\<close>

text \<open>
  Facts about \<open>sendRequest\<close>, the queue's map and the parts of \<open>processQueue\<close>,
  as far as the definition of the complete run of the loop needs them, and that
  definition.
\<close>

declare sendRequest_loop.simps [simp del]

lemma send_fail_now:
  "\<not> retries < maxR \<Longrightarrow>
   sendRequest_loop maxR gw item retries now =
     \<lparr>succeeded = False, finished = now, calls = [], sleeps = [], send_log = []\<rparr>"
  by (subst sendRequest_loop.simps) simp

lemma send_ok:
  "retries < maxR \<Longrightarrow> fst (gw retries) \<Longrightarrow>
   sendRequest_loop maxR gw item retries now =
     \<lparr>succeeded = True, finished = now + int (snd (gw retries)),
      calls = [(now, gateway_call_of item)], sleeps = [], send_log = []\<rparr>"
  by (subst sendRequest_loop.simps) simp

lemma send_retry:
  "retries + 1 < maxR \<Longrightarrow> \<not> fst (gw retries) \<Longrightarrow>
   sendRequest_loop maxR gw item retries now =
     (sendRequest_loop maxR gw item (retries + 1)
        (now + int (snd (gw retries)) + backoffMs (retries + 1)))
     \<lparr>calls := (now, gateway_call_of item) #
         calls (sendRequest_loop maxR gw item (retries + 1)
                  (now + int (snd (gw retries)) + backoffMs (retries + 1))),
      sleeps := backoffMs (retries + 1) #
         sleeps (sendRequest_loop maxR gw item (retries + 1)
                  (now + int (snd (gw retries)) + backoffMs (retries + 1))),
      send_log := ErrorRequestFailed (retries + 1) maxR #
         send_log (sendRequest_loop maxR gw item (retries + 1)
                  (now + int (snd (gw retries)) + backoffMs (retries + 1)))\<rparr>"
  by (subst sendRequest_loop.simps) (simp add: Let_def)

lemma send_last:
  "retries < maxR \<Longrightarrow> \<not> retries + 1 < maxR \<Longrightarrow> \<not> fst (gw retries) \<Longrightarrow>
   sendRequest_loop maxR gw item retries now =
     \<lparr>succeeded = False, finished = now + int (snd (gw retries)),
      calls = [(now, gateway_call_of item)], sleeps = [],
      send_log = [ErrorRequestFailed (retries + 1) maxR]\<rparr>"
  by (subst sendRequest_loop.simps) (simp add: Let_def send_fail_now)

lemma send_calls_le:
  "length (calls (sendRequest_loop maxR gw item retries now)) \<le> maxR - retries"
proof (induction maxR gw item retries now rule: sendRequest_loop.induct)
  case (1 maxR gw item retries now)
  show ?case
  proof (cases "retries < maxR")
    case False
    then show ?thesis by (simp add: send_fail_now)
  next
    case lt: True
    show ?thesis
    proof (cases "fst (gw retries)")
      case True
      then show ?thesis using lt by (simp add: send_ok)
    next
      case nok: False
      show ?thesis
      proof (cases "retries + 1 < maxR")
        case True
        from "1.IH"(1)[OF lt nok True] True nok show ?thesis
          by (simp add: send_retry)
      next
        case False
        then show ?thesis using lt nok by (simp add: send_last)
      qed
    qed
  qed
qed

lemma send_calls_pos:
  "retries < maxR \<Longrightarrow> 0 < length (calls (sendRequest_loop maxR gw item retries now))"
proof -
  assume lt: "retries < maxR"
  show ?thesis
  proof (cases "fst (gw retries)")
    case True
    then show ?thesis using lt by (simp add: send_ok)
  next
    case nok: False
    show ?thesis
    proof (cases "retries + 1 < maxR")
      case True
      then show ?thesis using nok by (simp add: send_retry)
    next
      case False
      then show ?thesis using lt nok by (simp add: send_last)
    qed
  qed
qed

lemma upt_shift: "0 < n \<Longrightarrow> [r + 1 ..< r + (1 + n)] = (r + 1) # [r + 1 + 1 ..< r + 1 + n]"
  by (simp add: upt_conv_Cons)

lemma send_sleeps:
  "sleeps (sendRequest_loop maxR gw item retries now) =
     map backoffMs [retries + 1 ..< retries + length (calls (sendRequest_loop maxR gw item retries now))]"
proof (induction maxR gw item retries now rule: sendRequest_loop.induct)
  case (1 maxR gw item retries now)
  show ?case
  proof (cases "retries < maxR")
    case False
    then show ?thesis by (simp add: send_fail_now)
  next
    case lt: True
    show ?thesis
    proof (cases "fst (gw retries)")
      case True
      then show ?thesis using lt by (simp add: send_ok)
    next
      case nok: False
      show ?thesis
      proof (cases "retries + 1 < maxR")
        case True
        let ?r = "sendRequest_loop maxR gw item (retries + 1)
                    (now + int (snd (gw retries)) + backoffMs (retries + 1))"
        have ih: "sleeps ?r = map backoffMs [retries + 1 + 1 ..< retries + 1 + length (calls ?r)]"
          by (rule "1.IH"(1)[OF lt nok True])
        have pos: "0 < length (calls ?r)" using True by (rule send_calls_pos)
        have c: "calls (sendRequest_loop maxR gw item retries now) = (now, gateway_call_of item) # calls ?r"
          and s: "sleeps (sendRequest_loop maxR gw item retries now) = backoffMs (retries + 1) # sleeps ?r"
          using True nok by (simp_all add: send_retry)
        have "sleeps (sendRequest_loop maxR gw item retries now)
                = map backoffMs ((retries + 1) # [retries + 1 + 1 ..< retries + 1 + length (calls ?r)])"
          by (simp only: s ih list.map)
        also have "\<dots> = map backoffMs [retries + 1 ..< retries + (1 + length (calls ?r))]"
          by (simp only: upt_shift[OF pos])
        finally show ?thesis by (simp add: c)
      next
        case False
        then show ?thesis using lt nok by (simp add: send_last)
      qed
    qed
  qed
qed

lemma send_succeeded:
  "succeeded (sendRequest_loop maxR gw item retries now) \<longleftrightarrow>
     (\<exists>k. retries \<le> k \<and> k < maxR \<and> fst (gw k))"
proof (induction maxR gw item retries now rule: sendRequest_loop.induct)
  case (1 maxR gw item retries now)
  show ?case
  proof (cases "retries < maxR")
    case False
    then show ?thesis by (simp add: send_fail_now)
  next
    case lt: True
    show ?thesis
    proof (cases "fst (gw retries)")
      case True
      then show ?thesis using lt by (auto simp: send_ok)
    next
      case nok: False
      have split: "(\<exists>k. retries \<le> k \<and> k < maxR \<and> fst (gw k)) \<longleftrightarrow>
                   (\<exists>k. retries + 1 \<le> k \<and> k < maxR \<and> fst (gw k))"
      proof
        assume "\<exists>k. retries \<le> k \<and> k < maxR \<and> fst (gw k)"
        then obtain k where k: "retries \<le> k" "k < maxR" "fst (gw k)" by blast
        with nok have "k \<noteq> retries" by auto
        with k have "retries + 1 \<le> k" by simp
        with k show "\<exists>k. retries + 1 \<le> k \<and> k < maxR \<and> fst (gw k)" by blast
      next
        assume "\<exists>k. retries + 1 \<le> k \<and> k < maxR \<and> fst (gw k)"
        then obtain k where "retries + 1 \<le> k" "k < maxR" "fst (gw k)" by blast
        then have "retries \<le> k \<and> k < maxR \<and> fst (gw k)" by simp
        then show "\<exists>k. retries \<le> k \<and> k < maxR \<and> fst (gw k)" by blast
      qed
      show ?thesis
      proof (cases "retries + 1 < maxR")
        case True
        from "1.IH"(1)[OF lt nok True] True nok show ?thesis
          by (simp add: send_retry split)
      next
        case False
        then have "\<not> (\<exists>k. retries + 1 \<le> k \<and> k < maxR \<and> fst (gw k))" by auto
        then show ?thesis using False lt nok by (simp add: send_last split)
      qed
    qed
  qed
qed

lemma send_failed_calls:
  "\<not> succeeded (sendRequest_loop maxR gw item retries now) \<Longrightarrow>
   length (calls (sendRequest_loop maxR gw item retries now)) = maxR - retries"
proof (induction maxR gw item retries now rule: sendRequest_loop.induct)
  case (1 maxR gw item retries now)
  show ?case
  proof (cases "retries < maxR")
    case False
    then show ?thesis by (simp add: send_fail_now)
  next
    case lt: True
    show ?thesis
    proof (cases "fst (gw retries)")
      case True
      then show ?thesis using lt "1.prems" by (simp add: send_ok)
    next
      case nok: False
      show ?thesis
      proof (cases "retries + 1 < maxR")
        case True
        from "1.prems" True nok
        have "\<not> succeeded (sendRequest_loop maxR gw item (retries + 1)
                  (now + int (snd (gw retries)) + backoffMs (retries + 1)))"
          by (simp add: send_retry)
        from "1.IH"(1)[OF lt nok True this] True nok show ?thesis
          by (simp add: send_retry)
      next
        case False
        then show ?thesis using lt nok by (simp add: send_last)
      qed
    qed
  qed
qed

lemma type_name_tail:
  "d1 @ '':'' @ type_name t1 = d2 @ '':'' @ type_name t2 \<Longrightarrow> t1 = t2"
proof (rule ccontr)
  assume eq: "d1 @ '':'' @ type_name t1 = d2 @ '':'' @ type_name t2" and ne: "t1 \<noteq> t2"
  from eq have "take 6 (rev (d1 @ '':'' @ type_name t1)) = take 6 (rev (d2 @ '':'' @ type_name t2))"
    by simp
  with ne show False by (cases t1; cases t2) simp_all
qed

lemma queue_key_inj:
  "queue_key d1 t1 = queue_key d2 t2 \<longleftrightarrow> d1 = d2 \<and> t1 = t2"
proof
  assume eq: "queue_key d1 t1 = queue_key d2 t2"
  then have t: "t1 = t2" unfolding queue_key_def by (rule type_name_tail)
  with eq have "d1 = d2" unfolding queue_key_def by simp
  with t show "d1 = d2 \<and> t1 = t2" by simp
next
  assume "d1 = d2 \<and> t1 = t2"
  then show "queue_key d1 t1 = queue_key d2 t2" by simp
qed

lemma key_of_inj:
  "key_of a = key_of b \<longleftrightarrow> item_id a = item_id b \<and> item_type a = item_type b"
  by (simp add: key_of_def queue_key_inj)

lemma queue_set_keys:
  "set (map key_of (queue_set item q)) = insert (key_of item) (set (map key_of q))"
  by (induction q) auto

lemma queue_set_distinct:
  "distinct (map key_of q) \<Longrightarrow> distinct (map key_of (queue_set item q))"
proof (induction q)
  case Nil
  then show ?case by simp
next
  case (Cons x xs)
  show ?case
  proof (cases "key_of x = key_of item")
    case True
    then show ?thesis using Cons.prems by simp
  next
    case False
    have "key_of x \<notin> set (map key_of (queue_set item xs))"
      using False Cons.prems by (simp add: queue_set_keys del: set_map)
    then show ?thesis using False Cons by simp
  qed
qed

lemma queue_delete_distinct:
  "distinct (map key_of q) \<Longrightarrow> distinct (map key_of (queue_delete k q))"
  by (simp add: queue_delete_def distinct_map_filter)

lemma queue_set_filter_key:
  "filter (\<lambda>i. key_of i = key_of item) (queue_set item q) =
     item # tl (filter (\<lambda>i. key_of i = key_of item) q)"
  by (induction q) auto

lemma distinct_filter_key:
  "distinct (map key_of q) \<Longrightarrow> length (filter (\<lambda>i. key_of i = k) q) \<le> 1"
proof (induction q)
  case Nil
  then show ?case by simp
next
  case (Cons x xs)
  show ?case
  proof (cases "key_of x = k")
    case True
    with Cons.prems have "k \<notin> key_of ` set xs" by simp
    then have "\<forall>i\<in>set xs. key_of i \<noteq> k" by blast
    then have "filter (\<lambda>i. key_of i = k) xs = []" by (simp add: filter_empty_conv)
    then show ?thesis using True by simp
  next
    case False
    then show ?thesis using Cons by simp
  qed
qed

lemma queue_set_filter_distinct:
  assumes "distinct (map key_of q)"
  shows "filter (\<lambda>i. key_of i = key_of item) (queue_set item q) = [item]"
proof -
  have "length (filter (\<lambda>i. key_of i = key_of item) q) \<le> 1"
    using assms by (rule distinct_filter_key)
  then have "tl (filter (\<lambda>i. key_of i = key_of item) q) = []"
    by (cases "filter (\<lambda>i. key_of i = key_of item) q") simp_all
  then show ?thesis by (simp add: queue_set_filter_key)
qed

lemma queue_set_filter_other:
  "k \<noteq> key_of item \<Longrightarrow>
   filter (\<lambda>i. key_of i = k) (queue_set item q) = filter (\<lambda>i. key_of i = k) q"
  by (induction q) auto

lemma queue_set_length_has:
  "queue_has (key_of item) q \<Longrightarrow> length (queue_set item q) = length q"
  by (induction q) (auto simp: queue_has_def)

lemma oldest_of_mem:
  "oldest_of best q = Some x \<Longrightarrow> x \<in> set q \<or> best = Some x"
proof (induction q arbitrary: best)
  case Nil
  then show ?case by simp
next
  case (Cons item items)
  show ?case
  proof (cases best)
    case None
    with Cons.prems have "oldest_of (Some item) items = Some x" by simp
    from Cons.IH[OF this] show ?thesis by auto
  next
    case (Some b)
    show ?thesis
    proof (cases "timestamp item < timestamp b")
      case True
      with Some Cons.prems have "oldest_of (Some item) items = Some x" by simp
      from Cons.IH[OF this] show ?thesis by auto
    next
      case False
      with Some Cons.prems have "oldest_of (Some b) items = Some x" by simp
      from Cons.IH[OF this] Some show ?thesis by auto
    qed
  qed
qed

lemma getOldestItem_mem: "getOldestItem q = Some x \<Longrightarrow> x \<in> set q"
  using oldest_of_mem[of None q x] by (simp add: getOldestItem_def)

lemma oldest_of_Some: "\<exists>x. oldest_of (Some b) q = Some x"
  by (induction q arbitrary: b) simp_all

lemma getOldestItem_nonempty: "q \<noteq> [] \<Longrightarrow> \<exists>x. getOldestItem q = Some x"
  by (cases q) (simp_all add: getOldestItem_def oldest_of_Some)

lemma queue_delete_shorter:
  "x \<in> set q \<Longrightarrow> length (queue_delete (key_of x) q) < length q"
proof (induction q)
  case Nil
  then show ?case by simp
next
  case (Cons y ys)
  have le: "length (filter (\<lambda>i. key_of i \<noteq> key_of x) ys) \<le> length ys"
    by (rule length_filter_le)
  show ?case
  proof (cases "key_of y = key_of x")
    case True
    then show ?thesis using le by (simp add: queue_delete_def less_Suc_eq_le)
  next
    case False
    with Cons.prems have "x \<in> set ys" by auto
    from Cons.IH[OF this] False show ?thesis by (simp add: queue_delete_def)
  qed
qed

lemma updateDesiredState_fields:
  "queue (updateDesiredState q d ty v now) = queue q"
  "processing (updateDesiredState q d ty v now) = processing q"
  "lastProcessTime (updateDesiredState q d ty v now) = lastProcessTime q"
  "cachesById (updateDesiredState q d ty v now) = cachesById q"
  "intervalMs (updateDesiredState q d ty v now) = intervalMs q"
  "maxRetries (updateDesiredState q d ty v now) = maxRetries q"
  "verificationDelayMs (updateDesiredState q d ty v now) = verificationDelayMs q"
  "loop (updateDesiredState q d ty v now) = loop q"
  "timers (updateDesiredState q d ty v now) = timers q"
  "nextTimerId (updateDesiredState q d ty v now) = nextTimerId q"
  "dispatched (updateDesiredState q d ty v now) = dispatched q"
  "logged (updateDesiredState q d ty v now) = logged q"
  by (simp_all add: updateDesiredState_def Let_def)

lemma scheduleVerification_fields:
  "queue (scheduleVerification q d now) = queue q"
  "processing (scheduleVerification q d now) = processing q"
  "lastProcessTime (scheduleVerification q d now) = lastProcessTime q"
  "cachesById (scheduleVerification q d now) = cachesById q"
  "intervalMs (scheduleVerification q d now) = intervalMs q"
  "maxRetries (scheduleVerification q d now) = maxRetries q"
  "verificationDelayMs (scheduleVerification q d now) = verificationDelayMs q"
  "loop (scheduleVerification q d now) = loop q"
  "dispatched (scheduleVerification q d now) = dispatched q"
  "logged (scheduleVerification q d now) = logged q"
  by (simp_all add: scheduleVerification_def Let_def split: option.splits)

lemma enqueue_stored_fields:
  "queue (enqueue_stored q d ty v now) =
     queue_set \<lparr>item_id = d, item_type = ty, item_value = v, timestamp = now\<rparr> (queue q)"
  "processing (enqueue_stored q d ty v now) = processing q"
  "lastProcessTime (enqueue_stored q d ty v now) = lastProcessTime q"
  "cachesById (enqueue_stored q d ty v now) = cachesById q"
  "intervalMs (enqueue_stored q d ty v now) = intervalMs q"
  "maxRetries (enqueue_stored q d ty v now) = maxRetries q"
  "loop (enqueue_stored q d ty v now) = loop q"
  "dispatched (enqueue_stored q d ty v now) = dispatched q"
  "logged (enqueue_stored q d ty v now) = logged q"
  by (simp_all add: enqueue_stored_def scheduleVerification_fields updateDesiredState_fields)

lemma enqueue_unfold:
  "enqueue q d ty v now =
     (if \<not> processing q then processQueue (enqueue_stored q d ty v now) now
      else enqueue_stored q d ty v now)"
  by (simp add: enqueue_def enqueue_stored_def Let_def scheduleVerification_fields
      updateDesiredState_fields)

lemma processQueue_dispatch_fields:
  "logged (processQueue_dispatch q now) = logged q"
  "lastProcessTime (processQueue_dispatch q now) = lastProcessTime q"
  "intervalMs (processQueue_dispatch q now) = intervalMs q"
  "maxRetries (processQueue_dispatch q now) = maxRetries q"
  "deviceStates (processQueue_dispatch q now) = deviceStates q"
  "cachesById (processQueue_dispatch q now) = cachesById q"
  by (simp_all add: processQueue_dispatch_def split: option.splits)

lemma processQueue_fields:
  "logged (processQueue q now) = logged q"
  "lastProcessTime (processQueue q now) = lastProcessTime q"
  "intervalMs (processQueue q now) = intervalMs q"
  "maxRetries (processQueue q now) = maxRetries q"
  "deviceStates (processQueue q now) = deviceStates q"
  "cachesById (processQueue q now) = cachesById q"
  by (simp_all add: processQueue_def Let_def processQueue_dispatch_fields)

lemma processQueue_settled_fields:
  "queue (processQueue_settled q item r) = queue q"
  "dispatched (processQueue_settled q item r) = dispatched q"
  "processing (processQueue_settled q item r) = processing q"
  "intervalMs (processQueue_settled q item r) = intervalMs q"
  "maxRetries (processQueue_settled q item r) = maxRetries q"
  "loop (processQueue_settled q item r) = AwaitImmediate"
  by (simp_all add: processQueue_settled_def)

lemma dispatch_distinct:
  "distinct (map key_of (queue q)) \<Longrightarrow> distinct (map key_of (queue (processQueue_dispatch q now)))"
  by (cases "getOldestItem (queue q)") (simp_all add: processQueue_dispatch_def queue_delete_distinct)

lemma processQueue_distinct:
  "distinct (map key_of (queue q)) \<Longrightarrow> distinct (map key_of (queue (processQueue q now)))"
proof -
  assume d: "distinct (map key_of (queue q))"
  then have "distinct (map key_of (queue (processQueue_dispatch (q\<lparr>processing := True\<rparr>) now)))"
    using dispatch_distinct[of "q\<lparr>processing := True\<rparr>" now] by simp
  then show ?thesis using d by (simp add: processQueue_def Let_def)
qed

lemma enqueue_distinct:
  "distinct (map key_of (queue q)) \<Longrightarrow> distinct (map key_of (queue (enqueue q d ty v now)))"
proof -
  assume d: "distinct (map key_of (queue q))"
  then have s: "distinct (map key_of (queue (enqueue_stored q d ty v now)))"
    by (simp add: enqueue_stored_fields queue_set_distinct)
  show ?thesis
    using s processQueue_distinct[OF s, of now] by (simp add: enqueue_unfold)
qed

lemma processQueue_dispatch_send:
  "loop (processQueue_dispatch q t) = AwaitSend item t0 \<Longrightarrow>
   getOldestItem (queue q) = Some item \<and> t0 = t \<and>
   queue (processQueue_dispatch q t) = queue_delete (key_of item) (queue q) \<and>
   dispatched (processQueue_dispatch q t) = dispatched q @ [(t, item)]"
  by (cases "getOldestItem (queue q)") (simp_all add: processQueue_dispatch_def)

lemma processQueue_dispatch_shorter:
  "loop (processQueue_dispatch q t) = AwaitSend item t0 \<Longrightarrow>
   length (queue (processQueue_dispatch q t)) < length (queue q)"
proof -
  assume a: "loop (processQueue_dispatch q t) = AwaitSend item t0"
  from processQueue_dispatch_send[OF a]
  have g: "getOldestItem (queue q) = Some item"
    and e: "queue (processQueue_dispatch q t) = queue_delete (key_of item) (queue q)"
    by simp_all
  from g have "item \<in> set (queue q)" by (rule getOldestItem_mem)
  then show ?thesis unfolding e by (rule queue_delete_shorter)
qed

lemma processQueue_cases:
  "(queue q = [] \<and> processQueue q now = q\<lparr>processing := False, loop := Idle\<rparr>) \<or>
   (queue q \<noteq> [] \<and> 0 < intervalMs q - (now - lastProcessTime q) \<and>
      processQueue q now =
        q\<lparr>processing := True, loop := AwaitGate (now + (intervalMs q - (now - lastProcessTime q)))\<rparr>) \<or>
   (queue q \<noteq> [] \<and> \<not> 0 < intervalMs q - (now - lastProcessTime q) \<and>
      processQueue q now = processQueue_dispatch (q\<lparr>processing := True\<rparr>) now)"
  by (cases "queue q") (auto simp: processQueue_def Let_def max_def)

lemma after_gate_processQueue_shorter:
  assumes "loop (after_gate (processQueue q now)) = AwaitSend item t0"
  shows "length (queue (after_gate (processQueue q now))) < length (queue q)"
proof -
  from processQueue_cases[of q now] show ?thesis
  proof (elim disjE conjE)
    assume "processQueue q now = q\<lparr>processing := False, loop := Idle\<rparr>"
    with assms show ?thesis by (simp add: after_gate_def)
  next
    assume e: "processQueue q now =
        q\<lparr>processing := True, loop := AwaitGate (now + (intervalMs q - (now - lastProcessTime q)))\<rparr>"
    let ?q1 = "q\<lparr>processing := True, loop := AwaitGate (now + (intervalMs q - (now - lastProcessTime q)))\<rparr>"
    let ?t = "now + (intervalMs q - (now - lastProcessTime q))"
    have ag: "after_gate (processQueue q now) = processQueue_dispatch ?q1 ?t"
      by (simp add: e after_gate_def)
    from assms have "loop (processQueue_dispatch ?q1 ?t) = AwaitSend item t0" by (simp only: ag)
    from processQueue_dispatch_shorter[OF this] show ?thesis by (simp add: ag)
  next
    assume e: "processQueue q now = processQueue_dispatch (q\<lparr>processing := True\<rparr>) now"
    have l: "loop (processQueue_dispatch (q\<lparr>processing := True\<rparr>) now) = AwaitSend item t0
             \<Longrightarrow> after_gate (processQueue_dispatch (q\<lparr>processing := True\<rparr>) now)
                 = processQueue_dispatch (q\<lparr>processing := True\<rparr>) now"
      by (simp add: after_gate_def)
    have l2: "\<And>due. loop (processQueue_dispatch (q\<lparr>processing := True\<rparr>) now) \<noteq> AwaitGate due"
      by (cases "getOldestItem (queue q)") (simp_all add: processQueue_dispatch_def)
    have ag: "after_gate (processQueue q now) = processQueue_dispatch (q\<lparr>processing := True\<rparr>) now"
      using l2 by (simp add: e after_gate_def split: loop_state.splits)
    from assms have "loop (processQueue_dispatch (q\<lparr>processing := True\<rparr>) now) = AwaitSend item t0"
      by (simp only: ag)
    from processQueue_dispatch_shorter[OF this] show ?thesis by (simp add: ag)
  qed
qed

text \<open>
  The dispatch loop run to the end with no \<open>enqueue\<close> in between, from the start of
  \<open>processQueue\<close> at time \<open>now\<close>: the interval timer fires exactly when it is due,
  and the gateway's behaviour during the \<open>n\<close>-th dispatch is \<open>gws n\<close>. Each round
  removes an item from the queue, so the loop ends.
\<close>

function drain :: "ApiQueue \<Rightarrow> int \<Rightarrow> (nat \<Rightarrow> nat \<Rightarrow> bool \<times> nat) \<Rightarrow> nat \<Rightarrow> ApiQueue" where
  "drain q now gws n =
     (case loop (after_gate (processQueue q now)) of
        AwaitSend item t0 \<Rightarrow>
          drain
            (processQueue_settled (after_gate (processQueue q now)) item
               (sendRequest (maxRetries q) (gws n) item t0))
            (finished (sendRequest (maxRetries q) (gws n) item t0)) gws (Suc n)
      | _ \<Rightarrow> after_gate (processQueue q now))"
  by pat_completeness auto

termination
proof (relation "measure (\<lambda>(q, now, gws, n). length (queue q))")
  show "wf (measure (\<lambda>(q, now, gws, n). length (queue q)))" by simp
next
  fix q :: ApiQueue and now :: int and gws :: "nat \<Rightarrow> nat \<Rightarrow> bool \<times> nat" and n :: nat
    and item :: QueueItem and t0 :: int
  assume "loop (after_gate (processQueue q now)) = AwaitSend item t0"
  then have "length (queue (after_gate (processQueue q now))) < length (queue q)"
    by (rule after_gate_processQueue_shorter)
  then show "((processQueue_settled (after_gate (processQueue q now)) item
                 (sendRequest (maxRetries q) (gws n) item t0),
               finished (sendRequest (maxRetries q) (gws n) item t0), gws, Suc n),
              q, now, gws, n) \<in> measure (\<lambda>(q, now, gws, n). length (queue q))"
    by (simp add: processQueue_settled_fields)
qed

declare drain.simps [simp del]

text \<open>
  The dispatch loop continued to the end from any state, with no \<open>enqueue\<close> in
  between: a pending interval timer fires when it is due, the send that is under way
  settles as the gateway's behaviour \<open>gws 0\<close> has it, and a pending \<open>setImmediate\<close>
  callback runs at \<open>now\<close>.
\<close>

definition continue_loop :: "ApiQueue \<Rightarrow> int \<Rightarrow> (nat \<Rightarrow> nat \<Rightarrow> bool \<times> nat) \<Rightarrow> ApiQueue" where
  "continue_loop q now gws =
     (case loop (after_gate q) of
        AwaitSend item t0 \<Rightarrow>
          drain
            (processQueue_settled (after_gate q) item
               (sendRequest (maxRetries q) (gws 0) item t0))
            (finished (sendRequest (maxRetries q) (gws 0) item t0)) gws 1
      | AwaitImmediate \<Rightarrow> drain q now gws 0
      | _ \<Rightarrow> after_gate q)"

section \<open>Evaluation of the arithmetic\<close>

lemma pow2_powr: "pow2 e = 2 powr (of_int e)"
  by (simp add: pow2_def powr_real_of_int inverse_eq_divide)

lemma pow2_mono: "a \<le> b \<Longrightarrow> pow2 a \<le> pow2 b"
  by (simp add: pow2_powr)

lemma pow2_less_imp: "pow2 a < pow2 b \<Longrightarrow> a < b"
  by (simp add: pow2_powr)

lemma exponent_from_eq:
  "- 1022 \<le> e \<Longrightarrow> e \<le> int k - 1022 \<Longrightarrow> pow2 e \<le> a \<Longrightarrow> a < pow2 (e + 1) \<Longrightarrow>
   exponent_from k a = e"
proof (induction k)
  case 0
  then show ?case by simp
next
  case (Suc k)
  show ?case
  proof (cases "pow2 (int (Suc k) - 1022) \<le> a")
    case True
    with Suc.prems(4) have "pow2 (int (Suc k) - 1022) < pow2 (e + 1)" by simp
    then have "int (Suc k) - 1022 < e + 1" by (rule pow2_less_imp)
    with Suc.prems(2) have "e = int (Suc k) - 1022" by simp
    then show ?thesis using True by simp
  next
    case False
    with Suc.prems(3) have "e \<noteq> int (Suc k) - 1022" by auto
    with Suc.prems(2) have "e \<le> int k - 1022" by simp
    from Suc.IH[OF Suc.prems(1) this Suc.prems(3) Suc.prems(4)] False show ?thesis by simp
  qed
qed

lemma round_double_at:
  assumes "- 1022 \<le> e" and "e \<le> 1024" and "pow2 e \<le> \<bar>x\<bar>" and "\<bar>x\<bar> < pow2 (e + 1)"
  shows "round_double x =
     (if pow2 1024 \<le> \<bar>of_int (round_half_even (x / pow2 (e - 52))) * pow2 (e - 52)\<bar>
      then Infinity (0 < x)
      else Num (of_int (round_half_even (x / pow2 (e - 52))) * pow2 (e - 52)))"
proof -
  have "exponent \<bar>x\<bar> = e"
    unfolding exponent_def using assms by (intro exponent_from_eq) simp_all
  then show ?thesis by (simp add: round_double_def Let_def)
qed

lemma tenth_eq: "tenth = Num (3602879701896397 / 36028797018963968)"
  unfolding tenth_def
  by (subst round_double_at[of "- 4"]) (simp_all add: pow2_def round_half_even_def)

lemma nine_fifths_eq: "nine_fifths = Num (8106479329266893 / 4503599627370496)"
  unfolding nine_fifths_def
  by (subst round_double_at[of 0]) (simp_all add: pow2_def round_half_even_def)

lemma fahrenheit_20:
  "num_floor (num_add (num_mul (Num 20) nine_fifths) (Num 32)) = Num 68"
proof -
  have a: "num_mul (Num 20) nine_fifths = Num 36"
    unfolding nine_fifths_eq num_mul.simps
    by (subst round_double_at[of 5]) (simp_all add: pow2_def round_half_even_def)
  have b: "round_double 68 = Num 68"
    by (subst round_double_at[of 6]) (simp_all add: pow2_def round_half_even_def)
  show ?thesis by (simp add: a b)
qed

lemma fahrenheit_22:
  "num_floor (num_add (num_mul (Num 22) nine_fifths) (Num 32)) = Num 71"
proof -
  have a: "num_mul (Num 22) nine_fifths = Num (5573204538870989 / 140737488355328)"
    unfolding nine_fifths_eq num_mul.simps
    by (subst round_double_at[of 5]) (simp_all add: pow2_def round_half_even_def)
  have b: "round_double (10076804166241485 / 140737488355328) = Num (2519201041560371 / 35184372088832)"
    by (subst round_double_at[of 6]) (simp_all add: pow2_def round_half_even_def)
  show ?thesis by (simp add: a b)
qed

section \<open>Properties of the cache\<close>

lemma backoffDuration_clamp:
  "backoffDuration n ms = clamp_spec (ms * 2 ^ n) 5000 300000"
  by (simp add: backoffDuration_def clamp_spec_def min_def max_def mult.commute)







lemma record_error_fields:
  "cachedValue (record_error c err) = cachedValue c"
  "request (record_error c err) = request c"
  "responseExpireAt (record_error c err) = responseExpireAt c"
  "responseTimestamp (record_error c err) = responseTimestamp c"
  "errorCount (record_error c err) = errorCount c"
  "expirationMS (record_error c err) = expirationMS c"
  "promises (record_error c err) = promises c"
  by (simp_all add: record_error_def split: fetch_error.splits)


lemma fetch_then_fields:
  "cachedValue (fetch_then c p r now) = Some r"
  "errorCount (fetch_then c p r now) = 0"
  "expirationMS (fetch_then c p r now) = expirationMS c"
  "promises (fetch_then c p r now) = (promises c)[p := Fulfilled (Some r)]"
  "request (fetch_then c p r now) = None"
  "responseExpireAt (fetch_then c p r now) = Some (now + expirationMS c)"
  "responseTimestamp (fetch_then c p r now) = Some now"
  by (simp_all add: fetch_then_def)





lemma get_valid: "cacheValid c now \<Longrightarrow> get c now = (Resolved (the (cachedValue c)), c)"
  by (simp add: get_def)


lemma get_start:
  "\<not> cacheValid c now \<Longrightarrow> request c = None \<Longrightarrow>
   get c now = (Handle (length (promises c)),
                c\<lparr>request := Some (length (promises c)), promises := promises c @ [Pending]\<rparr>)"
  by (simp add: get_def)

lemma cacheValid_start [simp]:
  "cacheValid (c\<lparr>request := r, promises := ps\<rparr>) now = cacheValid c now"
  by (simp add: cacheValid_def split: option.splits)



lemma refresh_unfold:
  "refresh c now =
     (Handle (length (promises c)),
      c\<lparr>request := Some (length (promises c)), responseExpireAt := None,
        promises := promises c @ [Pending]\<rparr>)"
  by (simp add: refresh_def get_def cacheValid_def split: option.splits)




text \<open>The declaration of \<open>refresh\<close> that never runs would return a stored handle.\<close>

lemma refresh_shadowed_coalesces:
  "request c = Some p \<Longrightarrow> refresh_shadowed c now = (Handle p, c)"
  by (simp add: refresh_shadowed_def)

text \<open>
  C1 (as the code has it). \<open>refresh()\<close> drops the stored handle, invalidates the expiry
  and always starts a new fetch, whose promise it stores and returns. It does so also
  when a fetch is in flight: the earlier fetch is not returned and stays outstanding.
\<close>

theorem refresh_always_starts_fetch:
  "refresh c now =
     (Handle (length (promises c)),
      c\<lparr>request := Some (length (promises c)), responseExpireAt := None,
        promises := promises c @ [Pending]\<rparr>)"
  by (rule refresh_unfold)

theorem refresh_always_starts_fetch_witness:
  "fst (refresh (snd (get (newReadThroughCache 1000) 0)) 1) = Handle 1"
  using refresh_always_starts_fetch[of "snd (get (newReadThroughCache 1000) 0)" 1]
  by (simp add: get_def cacheValid_def newReadThroughCache_def)

text \<open>
  C1 as stated fails: with a fetch in flight (handle 0, pending), \<open>refresh()\<close> does not
  return that fetch but starts a second one, and two fetches are outstanding.
\<close>

theorem refresh_replaces_in_flight:
  "request (snd (get (newReadThroughCache 1000) 0)) = Some 0 \<and>
   awaited (snd (get (newReadThroughCache 1000) 0)) (Handle 0) = Pending \<and>
   fst (refresh (snd (get (newReadThroughCache 1000) 0)) 1) \<noteq> Handle 0 \<and>
   outstanding (snd (refresh (snd (get (newReadThroughCache 1000) 0)) 1)) = 2"
  by (simp add: refresh_def get_def cacheValid_def newReadThroughCache_def awaited_def outstanding_def)





text \<open>
  C5 fails on the code. The fetch behind handle 1 of a cache that holds a value (expiry
  1010, \<open>errorCount\<close> 0, \<open>expirationMS\<close> 1000) fails at 2050. The callback
  increments \<open>errorCount\<close> and keeps the value, and then throws at
  \<open>axios.isAxiosError\<close>: the expiry stays 1010 and the promise that \<open>get()\<close>
  returned is rejected. The rest of the callback, had it run, would have set the expiry
  to \<open>2050 + 5000\<close> and fulfilled the promise with the cached value.
\<close>

theorem failed_fetch_skips_backoff:
  "cachedValue staleCache = Some (sampleResponse (Num 20) Active) \<and>
   responseExpireAt staleCache = Some 1010 \<and>
   awaited staleCache (Handle 1) = Pending \<and>
   errorCount (settle staleCache 1 (Inl (AxiosError (Some 429) ''rate'')) 2050) = 1 \<and>
   cachedValue (settle staleCache 1 (Inl (AxiosError (Some 429) ''rate'')) 2050)
     = Some (sampleResponse (Num 20) Active) \<and>
   responseExpireAt (settle staleCache 1 (Inl (AxiosError (Some 429) ''rate'')) 2050) = Some 1010 \<and>
   awaited (settle staleCache 1 (Inl (AxiosError (Some 429) ''rate'')) 2050) (Handle 1)
     = Rejected (ReferenceError ''axios is not defined'') \<and>
   responseExpireAt (fetch_catch_unreached staleCache 1 (AxiosError (Some 429) ''rate'') 2050)
     = Some (2050 + clamp_spec (1000 * 2 ^ 1) 5000 300000) \<and>
   awaited (fetch_catch_unreached staleCache 1 (AxiosError (Some 429) ''rate'') 2050) (Handle 1)
     = Fulfilled (Some (sampleResponse (Num 20) Active))"
  by (simp add: staleCache_def get_def cacheValid_def fetch_then_def newReadThroughCache_def
      settle_def fetch_catch_def fetch_catch_unreached_def record_error_def backoffDuration_def
      clamp_spec_def awaited_def Let_def)

text \<open>
  C7. After a successful fetch at time \<open>T\<close> the response is stored, \<open>errorCount\<close>
  is 0, the handle is cleared and the entry expires at \<open>T + expirationMS\<close> (1000 by
  default). A \<open>get()\<close> before the expiry returns the stored value and leaves the
  cache unchanged; a \<open>get()\<close> at or after it starts a new fetch.
\<close>

theorem successful_fetch_ttl:
  assumes c1: "c1 = fetch_then c p r T"
  shows "cachedValue c1 = Some r \<and> errorCount c1 = 0 \<and> request c1 = None \<and>
         responseExpireAt c1 = Some (T + expirationMS c) \<and>
         (\<forall>now. now < T + expirationMS c \<longrightarrow> get c1 now = (Resolved r, c1)) \<and>
         (\<forall>now. T + expirationMS c \<le> now \<longrightarrow>
            get c1 now = (Handle (length (promises c1)),
                          c1\<lparr>request := Some (length (promises c1)),
                             promises := promises c1 @ [Pending]\<rparr>)) \<and>
         expirationMS (newReadThroughCache default_expirationMS) = 1000"
proof -
  have f: "cachedValue c1 = Some r" "errorCount c1 = 0" "request c1 = None"
    "responseExpireAt c1 = Some (T + expirationMS c)"
    by (simp_all add: c1 fetch_then_fields)
  have early: "\<forall>now. now < T + expirationMS c \<longrightarrow> get c1 now = (Resolved r, c1)"
  proof (intro allI impI)
    fix now assume "now < T + expirationMS c"
    then have "cacheValid c1 now" by (simp add: cacheValid_def f)
    then show "get c1 now = (Resolved r, c1)" using f(1) by (simp add: get_valid)
  qed
  have late: "\<forall>now. T + expirationMS c \<le> now \<longrightarrow>
            get c1 now = (Handle (length (promises c1)),
                          c1\<lparr>request := Some (length (promises c1)),
                             promises := promises c1 @ [Pending]\<rparr>)"
  proof (intro allI impI)
    fix now assume "T + expirationMS c \<le> now"
    then have "\<not> cacheValid c1 now" by (simp add: cacheValid_def f)
    then show "get c1 now = (Handle (length (promises c1)),
                          c1\<lparr>request := Some (length (promises c1)),
                             promises := promises c1 @ [Pending]\<rparr>)"
      using f(3) by (rule get_start)
  qed
  have d: "expirationMS (newReadThroughCache default_expirationMS) = 1000"
    by (simp add: newReadThroughCache_def default_expirationMS_def)
  show ?thesis using f early late d by blast
qed

text \<open>
  C8 fails on the code. The first \<open>get()\<close> of a new cache starts a fetch, which fails
  at 5 while no value is cached. The callback throws at \<open>axios.isAxiosError\<close>: the
  promise that \<open>get()\<close> returned is rejected, not fulfilled with null, and the handle
  is not cleared, so a later \<open>get()\<close> starts no fetch and returns the rejected promise
  again. The rest of the callback, had it run, would have cleared the handle and
  fulfilled the promise with null.
\<close>

theorem failed_first_fetch_rejects:
  "map_option
     (\<lambda>c. (cachedValue c, awaited c (fst (get (newReadThroughCache 1000) 0)), request c,
           get c 99999 = (Handle 0, c)))
     (run (newReadThroughCache 1000) [Get 0, Settle 0 (Inl (GeneralError ''timeout'')) 5])
   = Some (None, Rejected (ReferenceError ''axios is not defined''), Some 0, True) \<and>
   awaited (fetch_catch_unreached (snd (get (newReadThroughCache 1000) 0)) 0
              (GeneralError ''timeout'') 5) (Handle 0) = Fulfilled None \<and>
   request (fetch_catch_unreached (snd (get (newReadThroughCache 1000) 0)) 0
              (GeneralError ''timeout'') 5) = None"
  by (simp add: get_def cacheValid_def newReadThroughCache_def settle_def fetch_catch_def
      fetch_catch_unreached_def record_error_def awaited_def Let_def)




theorem successful_fetch_ttl_witness:
  "fst (get (fetch_then (snd (get (newReadThroughCache 1000) 0)) 0 (sampleResponse (Num 20) Active) 10) 510)
     = Resolved (sampleResponse (Num 20) Active) \<and>
   fst (get (fetch_then (snd (get (newReadThroughCache 1000) 0)) 0 (sampleResponse (Num 20) Active) 10) 1510)
     = Handle 1"
proof -
  have e: "expirationMS (snd (get (newReadThroughCache 1000) 0)) = 1000"
    "length (promises (snd (get (newReadThroughCache 1000) 0))) = 1"
    by (simp_all add: get_def cacheValid_def newReadThroughCache_def)
  from successful_fetch_ttl[OF refl, of "snd (get (newReadThroughCache 1000) 0)" 0
      "sampleResponse (Num 20) Active" 10]
  show ?thesis using e by (simp add: fetch_then_fields)
qed



section \<open>Properties of the write queue\<close>

lemma filter_key_member:
  "distinct (map key_of q) \<Longrightarrow> x \<in> set q \<Longrightarrow> filter (\<lambda>i. key_of i = key_of x) q = [x]"
proof (induction q)
  case Nil
  then show ?case by simp
next
  case (Cons y ys)
  show ?case
  proof (cases "x = y")
    case True
    from Cons.prems(1) have "key_of y \<notin> key_of ` set ys" by simp
    then have "\<forall>i\<in>set ys. key_of i \<noteq> key_of y" by (metis imageI)
    then have "filter (\<lambda>i. key_of i = key_of y) ys = []" by (simp add: filter_empty_conv)
    then show ?thesis using True by simp
  next
    case False
    with Cons.prems have xin: "x \<in> set ys" by simp
    from Cons.prems(1) have "key_of y \<notin> key_of ` set ys" by simp
    with xin have "key_of y \<noteq> key_of x" by (metis imageI)
    moreover have "filter (\<lambda>i. key_of i = key_of x) ys = [x]"
      using Cons.IH Cons.prems(1) xin by simp
    ultimately show ?thesis by simp
  qed
qed

lemma filter_key_delete:
  "filter (\<lambda>i. key_of i = k) (queue_delete k' q) =
     (if k = k' then [] else filter (\<lambda>i. key_of i = k) q)"
proof (cases "k = k'")
  case True
  then show ?thesis by (simp add: queue_delete_def filter_empty_conv)
next
  case False
  have "filter (\<lambda>i. key_of i = k) (filter (\<lambda>i. key_of i \<noteq> k') q) = filter (\<lambda>i. key_of i = k) q"
    using False by (induction q) auto
  then show ?thesis using False by (simp only: queue_delete_def if_False)
qed

lemma after_gate_cases:
  "(queue q = [] \<and> after_gate (processQueue q now) = q\<lparr>processing := False, loop := Idle\<rparr>) \<or>
   (\<exists>item. getOldestItem (queue q) = Some item \<and>
      loop (after_gate (processQueue q now)) =
        AwaitSend item (now + max 0 (intervalMs q - (now - lastProcessTime q))) \<and>
      queue (after_gate (processQueue q now)) = queue_delete (key_of item) (queue q) \<and>
      dispatched (after_gate (processQueue q now)) =
        dispatched q @ [(now + max 0 (intervalMs q - (now - lastProcessTime q)), item)])"
proof (cases "queue q = []")
  case True
  then show ?thesis by (simp add: processQueue_def after_gate_def)
next
  case False
  then obtain item where g: "getOldestItem (queue q) = Some item"
    using getOldestItem_nonempty by blast
  show ?thesis
  proof (cases "0 < intervalMs q - (now - lastProcessTime q)")
    case True
    then have "after_gate (processQueue q now) =
        processQueue_dispatch
          (q\<lparr>processing := True, loop := AwaitGate (now + (intervalMs q - (now - lastProcessTime q)))\<rparr>)
          (now + (intervalMs q - (now - lastProcessTime q)))"
      using False by (simp add: processQueue_def Let_def after_gate_def max_def)
    then show ?thesis using g True by (simp add: processQueue_dispatch_def max_def)
  next
    case nw: False
    then have p: "processQueue q now = processQueue_dispatch (q\<lparr>processing := True\<rparr>) now"
      using False by (simp add: processQueue_def Let_def max_def)
    have d: "processQueue_dispatch (q\<lparr>processing := True\<rparr>) now =
        q\<lparr>processing := True, queue := queue_delete (key_of item) (queue q),
          loop := AwaitSend item now, dispatched := dispatched q @ [(now, item)]\<rparr>"
      using g by (simp add: processQueue_dispatch_def)
    have "after_gate (processQueue q now) =
        q\<lparr>processing := True, queue := queue_delete (key_of item) (queue q),
          loop := AwaitSend item now, dispatched := dispatched q @ [(now, item)]\<rparr>"
      by (simp add: p d after_gate_def)
    then show ?thesis using g nw by (simp add: max_def)
  qed
qed

lemma drain_dispatched_key:
  "distinct (map key_of (queue q)) \<Longrightarrow>
   \<exists>new. dispatched (drain q now gws n) = dispatched q @ new \<and>
         filter (\<lambda>i. key_of i = k) (map snd new) = filter (\<lambda>i. key_of i = k) (queue q)"
proof (induction q now gws n rule: drain.induct)
  case (1 q now gws n)
  let ?A = "after_gate (processQueue q now)"
  from after_gate_cases[of q now] show ?case
  proof (elim disjE conjE exE)
    assume e: "queue q = []" and a: "?A = q\<lparr>processing := False, loop := Idle\<rparr>"
    have "drain q now gws n = q\<lparr>processing := False, loop := Idle\<rparr>"
      by (subst drain.simps) (simp add: a)
    then show ?thesis using e by simp
  next
    fix item
    let ?t0 = "now + max 0 (intervalMs q - (now - lastProcessTime q))"
    assume g: "getOldestItem (queue q) = Some item"
      and l: "loop ?A = AwaitSend item ?t0"
      and qa: "queue ?A = queue_delete (key_of item) (queue q)"
      and da: "dispatched ?A = dispatched q @ [(?t0, item)]"
    let ?r = "sendRequest (maxRetries q) (gws n) item ?t0"
    let ?q2 = "processQueue_settled ?A item ?r"
    have dr: "drain q now gws n = drain ?q2 (finished ?r) gws (Suc n)"
      by (subst drain.simps) (simp add: l)
    have dist2: "distinct (map key_of (queue ?q2))"
      using "1.prems" by (simp add: processQueue_settled_fields qa queue_delete_distinct)
    from "1.IH"[OF l dist2] obtain new where
      n1: "dispatched (drain ?q2 (finished ?r) gws (Suc n)) = dispatched ?q2 @ new"
      and n2: "filter (\<lambda>i. key_of i = k) (map snd new) = filter (\<lambda>i. key_of i = k) (queue ?q2)"
      by blast
    have mem: "item \<in> set (queue q)" using g by (rule getOldestItem_mem)
    have d1: "dispatched (drain q now gws n) = dispatched q @ ((?t0, item) # new)"
      by (simp add: dr n1 processQueue_settled_fields da)
    have f: "filter (\<lambda>i. key_of i = k) (map snd ((?t0, item) # new)) =
             filter (\<lambda>i. key_of i = k) (queue q)"
    proof (cases "key_of item = k")
      case True
      have "filter (\<lambda>i. key_of i = k) (queue q) = [item]"
        using filter_key_member[OF "1.prems" mem] True by simp
      moreover have "filter (\<lambda>i. key_of i = k) (map snd new) = []"
        using True by (simp add: n2 processQueue_settled_fields qa filter_key_delete)
      ultimately show ?thesis using True by simp
    next
      case False
      then have "k \<noteq> key_of item" by blast
      then have "filter (\<lambda>i. key_of i = k) (map snd new) = filter (\<lambda>i. key_of i = k) (queue q)"
        by (simp add: n2 processQueue_settled_fields qa filter_key_delete)
      then show ?thesis using False by simp
    qed
    show ?thesis using d1 f by blast
  qed
qed

lemma drain_empties: "queue (drain q now gws n) = []"
proof (induction q now gws n rule: drain.induct)
  case (1 q now gws n)
  let ?A = "after_gate (processQueue q now)"
  from after_gate_cases[of q now] show ?case
  proof (elim disjE conjE exE)
    assume e: "queue q = []" and a: "?A = q\<lparr>processing := False, loop := Idle\<rparr>"
    have "drain q now gws n = q\<lparr>processing := False, loop := Idle\<rparr>"
      by (subst drain.simps) (simp add: a)
    then show ?thesis using e by simp
  next
    fix item
    let ?t0 = "now + max 0 (intervalMs q - (now - lastProcessTime q))"
    assume l: "loop ?A = AwaitSend item ?t0"
    let ?r = "sendRequest (maxRetries q) (gws n) item ?t0"
    have dr: "drain q now gws n = drain (processQueue_settled ?A item ?r) (finished ?r) gws (Suc n)"
      by (subst drain.simps) (simp add: l)
    show ?thesis using "1.IH"[OF l] by (simp add: dr)
  qed
qed

lemma enqueue_logged: "logged (enqueue q d ty v now) = logged q"
  by (simp add: enqueue_unfold processQueue_fields enqueue_stored_fields)

lemma enqueue_deviceStates:
  "deviceStates (enqueue q d ty v now) =
     deviceStates (scheduleVerification (updateDesiredState q d ty v now) d now)"
  by (simp add: enqueue_unfold processQueue_fields enqueue_stored_def
      scheduleVerification_def updateDesiredState_def Let_def split: option.splits)

lemma enqueue_temperature_targetState:
  assumes "deviceStates q d = Some ds"
  shows "\<exists>ds'. deviceStates (enqueue q d Temperature v now) d = Some ds' \<and>
               targetState ds' = targetState ds"
  using assms
  by (simp add: enqueue_deviceStates scheduleVerification_def updateDesiredState_def Let_def)

lemma temperature_mismatch_iff:
  "temperature_mismatch ds a \<longleftrightarrow>
     (\<exists>t. targetTemperatureC ds = Some t \<and>
          num_gt (num_abs (num_sub (set_temperature_c (control a)) t)) tenth)"
  by (cases "targetTemperatureC ds") (simp_all add: temperature_mismatch_def)

lemma state_mismatch_iff:
  "state_mismatch ds a \<longleftrightarrow>
     (\<exists>m. targetState ds = Some m \<and> thermal_control_status (control a) \<noteq> m)"
  by (cases "targetState ds") (simp_all add: state_mismatch_def)

lemma state_mismatch_cong:
  "targetState ds' = targetState ds \<Longrightarrow> state_mismatch ds' a = state_mismatch ds a"
  by (simp add: state_mismatch_def)

lemma queue_delete_not_has: "\<not> queue_has k (queue_delete k q)"
  by (auto simp: queue_has_def queue_delete_def)

lemma backoffMs_values:
  "backoffMs 1 = 2000" "backoffMs 2 = 4000" "backoffMs 3 = 8000" "backoffMs 4 = 10000"
  by (simp_all add: backoffMs_def)

lemma backoffMs_cap: "backoffMs k \<le> 10000" "backoffMs (Suc k) = min (2 * backoffMs k) 10000"
  by (simp_all add: backoffMs_def min_def)

text \<open>
  C3 (as the code has it). \<open>sendRequest\<close> makes at most \<open>maxRetries\<close> attempts in
  all (3 by default), and succeeds exactly when one of them does. After the \<open>k\<close>-th
  failed attempt that is not the last it sleeps \<open>min(1000 * 2^k, 10000)\<close> ms: 2 s,
  4 s, 8 s, then 10 s. When every attempt has failed, \<open>processQueue\<close> logs an error
  for the item, leaves \<open>lastProcessTime\<close> and the queue as they are, and the item,
  deleted before it was sent, is not in the queue.
\<close>

theorem send_retries_backoff:
  "length (calls (sendRequest maxR gw item now)) \<le> maxR \<and>
   sleeps (sendRequest maxR gw item now) =
     map (\<lambda>k. min (1000 * 2 ^ k) 10000) [1 ..< length (calls (sendRequest maxR gw item now))] \<and>
   (succeeded (sendRequest maxR gw item now) \<longleftrightarrow> (\<exists>k<maxR. fst (gw k))) \<and>
   (\<not> succeeded (sendRequest maxR gw item now) \<longrightarrow>
      length (calls (sendRequest maxR gw item now)) = maxR \<and>
      (\<forall>q. queue (processQueue_settled q item (sendRequest maxR gw item now)) = queue q \<and>
           lastProcessTime (processQueue_settled q item (sendRequest maxR gw item now)) =
             lastProcessTime q \<and>
           logged (processQueue_settled q item (sendRequest maxR gw item now)) =
             logged q @ send_log (sendRequest maxR gw item now) @ [ErrorProcessing (key_of item)]) \<and>
      (\<forall>q t. getOldestItem (queue q) = Some item \<longrightarrow>
           \<not> queue_has (key_of item)
               (queue (processQueue_settled (processQueue_dispatch q t) item
                         (sendRequest maxR gw item now))))) \<and>
   maxRetries defaultApiQueue = 3"
proof -
  let ?r = "sendRequest maxR gw item now"
  have a: "length (calls ?r) \<le> maxR"
    using send_calls_le[of maxR gw item 0 now] by (simp add: sendRequest_def)
  have b: "sleeps ?r = map (\<lambda>k. min (1000 * 2 ^ k) 10000) [1 ..< length (calls ?r)]"
    using send_sleeps[of maxR gw item 0 now]
    by (simp add: sendRequest_def backoffMs_def[abs_def])
  have c: "succeeded ?r \<longleftrightarrow> (\<exists>k<maxR. fst (gw k))"
    using send_succeeded[of maxR gw item 0 now] by (simp add: sendRequest_def)
  have d: "\<not> succeeded ?r \<longrightarrow>
      length (calls ?r) = maxR \<and>
      (\<forall>q. queue (processQueue_settled q item ?r) = queue q \<and>
           lastProcessTime (processQueue_settled q item ?r) = lastProcessTime q \<and>
           logged (processQueue_settled q item ?r) =
             logged q @ send_log ?r @ [ErrorProcessing (key_of item)]) \<and>
      (\<forall>q t. getOldestItem (queue q) = Some item \<longrightarrow>
           \<not> queue_has (key_of item)
               (queue (processQueue_settled (processQueue_dispatch q t) item ?r)))"
  proof (intro impI conjI allI)
    assume f: "\<not> succeeded ?r"
    show "length (calls ?r) = maxR"
      using send_failed_calls[of maxR gw item 0 now] f by (simp add: sendRequest_def)
    fix q :: ApiQueue
    show "queue (processQueue_settled q item ?r) = queue q"
      by (simp add: processQueue_settled_fields)
    show "lastProcessTime (processQueue_settled q item ?r) = lastProcessTime q"
      using f by (simp add: processQueue_settled_def)
    show "logged (processQueue_settled q item ?r) =
             logged q @ send_log ?r @ [ErrorProcessing (key_of item)]"
      using f by (simp add: processQueue_settled_def)
  next
    fix q :: ApiQueue and t :: int
    assume g: "getOldestItem (queue q) = Some item"
    show "\<not> queue_has (key_of item)
               (queue (processQueue_settled (processQueue_dispatch q t) item ?r))"
      using g by (simp add: processQueue_settled_fields processQueue_dispatch_def queue_delete_not_has)
  qed
  have e: "maxRetries defaultApiQueue = 3"
    by (simp add: defaultApiQueue_def newApiQueue_def)
  show ?thesis using a b c d e by (intro conjI)
qed

lemma send_three_failures:
  "sendRequest 3 always_failing item now =
     \<lparr>succeeded = False, finished = now + 6000,
      calls = [(now, gateway_call_of item), (now + 2000, gateway_call_of item),
               (now + 6000, gateway_call_of item)],
      sleeps = [2000, 4000],
      send_log = [ErrorRequestFailed 1 3, ErrorRequestFailed 2 3, ErrorRequestFailed 3 3]\<rparr>"
  by (simp add: sendRequest_def sendRequest_loop.simps always_failing_def backoffMs_def Let_def)

text \<open>
  C3 as stated fails: with three failing attempts the sleeps are 2000 ms and 4000 ms; the
  first back-off is two seconds, not one.
\<close>

theorem first_backoff_is_two_seconds:
  "sleeps (sendRequest 3 always_failing (sampleItem ''A'' Temperature (Num 20) 0) 0) = [2000, 4000] \<and>
   map fst (calls (sendRequest 3 always_failing (sampleItem ''A'' Temperature (Num 20) 0) 0))
     = [0, 2000, 6000]"
  by (simp add: send_three_failures)

theorem send_retries_backoff_witness:
  "\<not> succeeded (sendRequest 3 always_failing (sampleItem ''A'' Temperature (Num 20) 0) 0) \<and>
   length (calls (sendRequest 3 always_failing (sampleItem ''A'' Temperature (Num 20) 0) 0)) = 3 \<and>
   sleeps (sendRequest 3 always_failing (sampleItem ''A'' Temperature (Num 20) 0) 0) = [2000, 4000]"
proof -
  have f: "\<not> succeeded (sendRequest 3 always_failing (sampleItem ''A'' Temperature (Num 20) 0) 0)"
    by (simp add: send_three_failures)
  from send_retries_backoff[of 3 always_failing "sampleItem ''A'' Temperature (Num 20) 0" 0] f
  have l: "length (calls (sendRequest 3 always_failing (sampleItem ''A'' Temperature (Num 20) 0) 0)) = 3"
    and s: "sleeps (sendRequest 3 always_failing (sampleItem ''A'' Temperature (Num 20) 0) 0) =
     map (\<lambda>k. min (1000 * 2 ^ k) 10000)
       [1 ..< length (calls (sendRequest 3 always_failing (sampleItem ''A'' Temperature (Num 20) 0) 0))]"
    by blast+
  have "[1 ..< 3] = [1, 2::nat]" by (simp add: upt_rec)
  with l s f show ?thesis by simp
qed

lemma begin_queue: "queue (fst (verifyDeviceState_begin q d)) = queue q"
  by (simp add: verifyDeviceState_begin_def Let_def split: option.splits)

lemma requeue_temperature_distinct:
  "distinct (map key_of (queue q)) \<Longrightarrow>
   distinct (map key_of (queue (requeue_temperature q d a now)))"
proof -
  assume dq: "distinct (map key_of (queue q))"
  show ?thesis
  proof (cases "deviceStates q d")
    case None
    then show ?thesis using dq by (simp add: requeue_temperature_def)
  next
    case (Some ds)
    show ?thesis
    proof (cases "temperature_mismatch ds a")
      case True
      let ?q = "q\<lparr>logged := logged q @
                    [WarnTemperatureMismatch d (the (targetTemperatureC ds))
                       (set_temperature_c (control a))]\<rparr>"
      have "distinct (map key_of (queue ?q))" using dq by simp
      then have "distinct (map key_of (queue (enqueue ?q d Temperature (the (targetTemperatureC ds)) now)))"
        by (rule enqueue_distinct)
      then show ?thesis using Some True by (simp add: requeue_temperature_def)
    next
      case False
      then show ?thesis using Some dq by (simp add: requeue_temperature_def)
    qed
  qed
qed

lemma requeue_state_distinct:
  "distinct (map key_of (queue q)) \<Longrightarrow>
   distinct (map key_of (queue (requeue_state q d a now)))"
proof -
  assume dq: "distinct (map key_of (queue q))"
  show ?thesis
  proof (cases "deviceStates q d")
    case None
    then show ?thesis using dq by (simp add: requeue_state_def)
  next
    case (Some ds)
    show ?thesis
    proof (cases "state_mismatch ds a")
      case True
      let ?q = "q\<lparr>logged := logged q @
                    [WarnStateMismatch d (the (targetState ds))
                       (thermal_control_status (control a))]\<rparr>"
      have "distinct (map key_of (queue ?q))" using dq by simp
      then have "distinct (map key_of (queue (enqueue ?q d State
                    (if the (targetState ds) = Standby then Num 0 else Num 1) now)))"
        by (rule enqueue_distinct)
      then show ?thesis using Some True by (simp add: requeue_state_def)
    next
      case False
      then show ?thesis using Some dq by (simp add: requeue_state_def)
    qed
  qed
qed

lemma resume_distinct:
  "distinct (map key_of (queue q)) \<Longrightarrow>
   distinct (map key_of (queue (verifyDeviceState_resume q d response now)))"
  by (simp add: verifyDeviceState_resume_def requeue_state_distinct requeue_temperature_distinct
      split: sum.splits option.splits)

lemma qstep_distinct:
  assumes dq: "distinct (map key_of (queue q))" and s: "qstep q e = Some q1"
  shows "distinct (map key_of (queue q1))"
proof (cases e)
  case (RegisterCache d c)
  with s have "q1 = registerCache q d c" by simp
  then show ?thesis using dq by (simp add: registerCache_def)
next
  case (Enqueue d ty v now)
  with s have "q1 = enqueue q d ty v now" by simp
  then show ?thesis using dq by (simp add: enqueue_distinct)
next
  case (GateElapsed now)
  with s have "q1 = processQueue_dispatch q now"
    by (simp split: loop_state.splits if_splits)
  then show ?thesis using dq by (simp add: dispatch_distinct)
next
  case (SendSettled gw)
  with s obtain item t0 where
    "q1 = processQueue_settled q item (sendRequest (maxRetries q) gw item t0)"
    by (auto split: loop_state.splits)
  then show ?thesis using dq by (simp add: processQueue_settled_fields)
next
  case (RunImmediate now)
  with s have "q1 = processQueue q now" by (simp split: loop_state.splits)
  then show ?thesis using dq by (simp add: processQueue_distinct)
next
  case (VerifyTimer tid now)
  with s obtain d where
    "q1 = fst (verifyDeviceState_begin (q\<lparr>timers := clearTimeout tid (timers q)\<rparr>) d)"
    by (auto split: option.splits)
  then show ?thesis using dq by (simp add: begin_queue)
next
  case (VerifyResume d response now)
  with s have "q1 = verifyDeviceState_resume q d response now" by simp
  then show ?thesis using dq by (simp add: resume_distinct)
qed

lemma qrun_Cons_Some:
  "qrun q (e # es) = Some q' \<Longrightarrow> \<exists>q1. qstep q e = Some q1 \<and> qrun q1 es = Some q'"
  by (cases "qstep q e") simp_all

lemma qrun_distinct:
  "distinct (map key_of (queue q)) \<Longrightarrow> qrun q evs = Some q' \<Longrightarrow>
   distinct (map key_of (queue q'))"
proof (induction evs arbitrary: q)
  case Nil
  then show ?case by simp
next
  case (Cons e es)
  obtain q1 where s: "qstep q e = Some q1" and r: "qrun q1 es = Some q'"
    using qrun_Cons_Some[OF Cons.prems(2)] by blast
  have "distinct (map key_of (queue q1))" by (rule qstep_distinct[OF Cons.prems(1) s])
  then show ?case using r by (rule Cons.IH)
qed

lemma distinct_keys_fields:
  "distinct (map key_of q) \<longleftrightarrow> distinct (map (\<lambda>i. (item_id i, item_type i)) q)"
proof -
  have "inj_on key_of (set q) \<longleftrightarrow> inj_on (\<lambda>i. (item_id i, item_type i)) (set q)"
    by (simp add: inj_on_def key_of_inj)
  then show ?thesis by (simp add: distinct_map)
qed

lemma key_filter_fields:
  "filter (\<lambda>i. key_of i = queue_key d ty) xs = filter (\<lambda>i. item_id i = d \<and> item_type i = ty) xs"
  by (simp add: key_of_def queue_key_inj)

lemma processQueue_dispatched_prefix:
  "\<exists>xs. dispatched (processQueue q now) = dispatched q @ xs"
proof -
  have d: "\<And>q t. \<exists>xs. dispatched (processQueue_dispatch q t) = dispatched q @ xs"
  proof -
    fix q :: ApiQueue and t :: int
    show "\<exists>xs. dispatched (processQueue_dispatch q t) = dispatched q @ xs"
      by (cases "getOldestItem (queue q)") (simp_all add: processQueue_dispatch_def)
  qed
  from processQueue_cases[of q now] show ?thesis
  proof (elim disjE conjE)
    assume "processQueue q now = q\<lparr>processing := False, loop := Idle\<rparr>"
    then show ?thesis by simp
  next
    assume "processQueue q now =
        q\<lparr>processing := True, loop := AwaitGate (now + (intervalMs q - (now - lastProcessTime q)))\<rparr>"
    then show ?thesis by simp
  next
    assume "processQueue q now = processQueue_dispatch (q\<lparr>processing := True\<rparr>) now"
    then show ?thesis using d[of "q\<lparr>processing := True\<rparr>" now] by simp
  qed
qed

lemma enqueue_dispatched_prefix:
  "\<exists>xs. dispatched (enqueue q d ty v t) = dispatched q @ xs"
proof (cases "processing q")
  case True
  then show ?thesis by (simp add: enqueue_unfold enqueue_stored_fields)
next
  case False
  from processQueue_dispatched_prefix[of "enqueue_stored q d ty v t" t]
  show ?thesis using False by (simp add: enqueue_unfold enqueue_stored_fields)
qed

lemma queue_set_nonempty: "queue_set item q \<noteq> []"
  by (cases q) simp_all

lemma enqueue_all_dispatched_prefix:
  "\<exists>xs. dispatched (enqueue_all q d ty vts) = dispatched q @ xs"
proof (induction vts arbitrary: q)
  case Nil
  then show ?case by simp
next
  case (Cons a vts)
  obtain v t where a: "a = (v, t)" by (cases a)
  from enqueue_dispatched_prefix[of q d ty v t] obtain xs where
    x: "dispatched (enqueue q d ty v t) = dispatched q @ xs" by blast
  from Cons.IH[of "enqueue q d ty v t"] obtain ys where
    y: "dispatched (enqueue_all (enqueue q d ty v t) d ty vts) = dispatched (enqueue q d ty v t) @ ys"
    by blast
  show ?case using x y a by simp
qed

lemma send_calls_item:
  "snd ` set (calls (sendRequest_loop maxR gw item retries now)) \<subseteq> {gateway_call_of item}"
proof (induction maxR gw item retries now rule: sendRequest_loop.induct)
  case (1 maxR gw item retries now)
  show ?case
  proof (cases "retries < maxR")
    case False
    then show ?thesis by (simp add: send_fail_now)
  next
    case lt: True
    show ?thesis
    proof (cases "fst (gw retries)")
      case True
      then show ?thesis using lt by (simp add: send_ok)
    next
      case nok: False
      show ?thesis
      proof (cases "retries + 1 < maxR")
        case True
        from "1.IH"(1)[OF lt nok True] True nok show ?thesis
          by (simp add: send_retry)
      next
        case False
        then show ?thesis using lt nok by (simp add: send_last)
      qed
    qed
  qed
qed

lemma loop_consistent_new: "loop_consistent (newApiQueue i m vd)"
  by (simp add: loop_consistent_def newApiQueue_def)

lemma enqueue_stored_nonempty: "queue (enqueue_stored q d ty v t) \<noteq> []"
  by (simp add: enqueue_stored_fields queue_set_nonempty)

lemma enqueue_cases:
  "(processing q \<and> enqueue q d ty v t = enqueue_stored q d ty v t) \<or>
   (\<not> processing q \<and> 0 < intervalMs q - (t - lastProcessTime q) \<and>
      enqueue q d ty v t =
        (enqueue_stored q d ty v t)\<lparr>processing := True,
           loop := AwaitGate (t + (intervalMs q - (t - lastProcessTime q)))\<rparr>) \<or>
   (\<not> processing q \<and> \<not> 0 < intervalMs q - (t - lastProcessTime q) \<and>
      enqueue q d ty v t =
        processQueue_dispatch ((enqueue_stored q d ty v t)\<lparr>processing := True\<rparr>) t)"
proof (cases "processing q")
  case True
  then show ?thesis by (simp add: enqueue_unfold)
next
  case False
  let ?S = "enqueue_stored q d ty v t"
  have e: "enqueue q d ty v t = processQueue ?S t" using False by (simp add: enqueue_unfold)
  have ne: "queue ?S \<noteq> []" by (rule enqueue_stored_nonempty)
  have f: "intervalMs ?S = intervalMs q" "lastProcessTime ?S = lastProcessTime q"
    by (simp_all add: enqueue_stored_fields)
  from processQueue_cases[of ?S t] show ?thesis
  proof (elim disjE conjE)
    assume "queue ?S = []"
    with ne show ?thesis by simp
  next
    assume a: "0 < intervalMs ?S - (t - lastProcessTime ?S)"
      and b: "processQueue ?S t =
        ?S\<lparr>processing := True, loop := AwaitGate (t + (intervalMs ?S - (t - lastProcessTime ?S)))\<rparr>"
    have "enqueue q d ty v t =
        ?S\<lparr>processing := True, loop := AwaitGate (t + (intervalMs q - (t - lastProcessTime q)))\<rparr>"
      unfolding e b f by (rule refl)
    then show ?thesis using False a unfolding f by simp
  next
    assume a: "\<not> 0 < intervalMs ?S - (t - lastProcessTime ?S)"
      and b: "processQueue ?S t = processQueue_dispatch (?S\<lparr>processing := True\<rparr>) t"
    have "enqueue q d ty v t = processQueue_dispatch (?S\<lparr>processing := True\<rparr>) t"
      unfolding e b by (rule refl)
    then show ?thesis using False a unfolding f by simp
  qed
qed

lemma enqueue_effect:
  assumes c: "loop_consistent q"
  shows "processing (enqueue q d ty v t) \<and> loop (enqueue q d ty v t) \<noteq> Idle \<and>
         maxRetries (enqueue q d ty v t) = maxRetries q \<and>
         queue (enqueue q d ty v t) =
           (if \<not> processing q \<and> lastProcessTime q + intervalMs q \<le> t then []
            else queue_set \<lparr>item_id = d, item_type = ty, item_value = v, timestamp = t\<rparr> (queue q)) \<and>
         dispatched (enqueue q d ty v t) =
           dispatched q @
           (if \<not> processing q \<and> lastProcessTime q + intervalMs q \<le> t
            then [(t, \<lparr>item_id = d, item_type = ty, item_value = v, timestamp = t\<rparr>)] else []) \<and>
         loop (enqueue q d ty v t) =
           (if processing q then loop q
            else if lastProcessTime q + intervalMs q \<le> t
            then AwaitSend \<lparr>item_id = d, item_type = ty, item_value = v, timestamp = t\<rparr> t
            else AwaitGate (lastProcessTime q + intervalMs q))"
proof -
  let ?S = "enqueue_stored q d ty v t"
  let ?item = "\<lparr>item_id = d, item_type = ty, item_value = v, timestamp = t\<rparr>"
  from enqueue_cases[of q d ty v t] show ?thesis
  proof (elim disjE conjE)
    assume p: "processing q" and e: "enqueue q d ty v t = ?S"
    from c p have "loop q \<noteq> Idle" by (simp add: loop_consistent_def)
    then show ?thesis using p by (simp add: e enqueue_stored_fields)
  next
    assume p: "\<not> processing q" and g: "0 < intervalMs q - (t - lastProcessTime q)"
      and e: "enqueue q d ty v t =
        ?S\<lparr>processing := True, loop := AwaitGate (t + (intervalMs q - (t - lastProcessTime q)))\<rparr>"
    from g have ne: "\<not> lastProcessTime q + intervalMs q \<le> t" by simp
    show ?thesis using p ne by (simp add: e enqueue_stored_fields)
  next
    assume p: "\<not> processing q" and g: "\<not> 0 < intervalMs q - (t - lastProcessTime q)"
      and e: "enqueue q d ty v t = processQueue_dispatch (?S\<lparr>processing := True\<rparr>) t"
    from g have el: "lastProcessTime q + intervalMs q \<le> t" by simp
    from c p have em: "queue q = []" by (simp add: loop_consistent_def)
    have qs: "queue ?S = [?item]" by (simp add: enqueue_stored_fields em)
    have d: "processQueue_dispatch (?S\<lparr>processing := True\<rparr>) t =
        ?S\<lparr>processing := True, queue := [], loop := AwaitSend ?item t,
           dispatched := dispatched ?S @ [(t, ?item)]\<rparr>"
      by (simp add: processQueue_dispatch_def qs queue_delete_def getOldestItem_def)
    show ?thesis using p el by (simp add: e d enqueue_stored_fields)
  qed
qed

lemma enqueue_consistent: "loop_consistent q \<Longrightarrow> loop_consistent (enqueue q d ty v t)"
  using enqueue_effect[of q d ty v t] by (simp add: loop_consistent_def)

lemma getOldestItem_None: "getOldestItem q = None \<Longrightarrow> q = []"
  using getOldestItem_nonempty[of q] by (cases "q = []") auto

lemma dispatch_consistent:
  "loop_consistent q \<Longrightarrow> loop_consistent (processQueue_dispatch q now)"
proof (cases "getOldestItem (queue q)")
  case None
  then have "queue q = []" by (rule getOldestItem_None)
  then show ?thesis using None by (simp add: loop_consistent_def processQueue_dispatch_def)
next
  case (Some x)
  assume c: "loop_consistent q"
  have "processing q"
  proof (rule ccontr)
    assume "\<not> processing q"
    with c have "queue q = []" by (simp add: loop_consistent_def)
    with Some show False by (simp add: getOldestItem_def)
  qed
  then show ?thesis using Some by (simp add: loop_consistent_def processQueue_dispatch_def)
qed

lemma processQueue_consistent: "loop_consistent (processQueue q now)"
proof -
  from processQueue_cases[of q now] show ?thesis
  proof (elim disjE conjE)
    assume "queue q = []" "processQueue q now = q\<lparr>processing := False, loop := Idle\<rparr>"
    then show ?thesis by (simp add: loop_consistent_def)
  next
    assume "processQueue q now =
        q\<lparr>processing := True, loop := AwaitGate (now + (intervalMs q - (now - lastProcessTime q)))\<rparr>"
    then show ?thesis by (simp add: loop_consistent_def)
  next
    assume ne: "queue q \<noteq> []"
      and e: "processQueue q now = processQueue_dispatch (q\<lparr>processing := True\<rparr>) now"
    from getOldestItem_nonempty[OF ne] obtain x where "getOldestItem (queue q) = Some x" by blast
    then show ?thesis by (simp add: e loop_consistent_def processQueue_dispatch_def)
  qed
qed

lemma begin_fields:
  "processing (fst (verifyDeviceState_begin q d)) = processing q"
  "loop (fst (verifyDeviceState_begin q d)) = loop q"
  "dispatched (fst (verifyDeviceState_begin q d)) = dispatched q"
  by (simp_all add: verifyDeviceState_begin_def Let_def split: option.splits)

lemma requeue_temperature_consistent:
  "loop_consistent q \<Longrightarrow> loop_consistent (requeue_temperature q d a now)"
proof -
  assume c: "loop_consistent q"
  have "\<And>x. loop_consistent (q\<lparr>logged := x\<rparr>)" using c by (simp add: loop_consistent_def)
  then show ?thesis using c
    by (simp add: requeue_temperature_def enqueue_consistent split: option.splits)
qed

lemma requeue_state_consistent:
  "loop_consistent q \<Longrightarrow> loop_consistent (requeue_state q d a now)"
proof -
  assume c: "loop_consistent q"
  have "\<And>x. loop_consistent (q\<lparr>logged := x\<rparr>)" using c by (simp add: loop_consistent_def)
  then show ?thesis using c
    by (simp add: requeue_state_def enqueue_consistent split: option.splits)
qed

lemma resume_consistent:
  "loop_consistent q \<Longrightarrow> loop_consistent (verifyDeviceState_resume q d response now)"
proof -
  assume c: "loop_consistent q"
  have "\<And>x. loop_consistent (q\<lparr>logged := x\<rparr>)" using c by (simp add: loop_consistent_def)
  then show ?thesis using c
    by (simp add: verifyDeviceState_resume_def requeue_state_consistent
        requeue_temperature_consistent split: sum.splits option.splits)
qed

lemma qstep_consistent:
  assumes c: "loop_consistent q" and s: "qstep q e = Some q1"
  shows "loop_consistent q1"
proof (cases e)
  case (RegisterCache d ca)
  with s have "q1 = registerCache q d ca" by simp
  then show ?thesis using c by (simp add: registerCache_def loop_consistent_def)
next
  case (Enqueue d ty v now)
  with s have "q1 = enqueue q d ty v now" by simp
  then show ?thesis using c by (simp add: enqueue_consistent)
next
  case (GateElapsed now)
  with s have "q1 = processQueue_dispatch q now"
    by (simp split: loop_state.splits if_splits)
  then show ?thesis using c by (simp add: dispatch_consistent)
next
  case (SendSettled gw)
  with s obtain item t0 where
    "q1 = processQueue_settled q item (sendRequest (maxRetries q) gw item t0)"
    by (auto split: loop_state.splits)
  then show ?thesis using c by (simp add: loop_consistent_def processQueue_settled_fields)
next
  case (RunImmediate now)
  with s have "q1 = processQueue q now" by (simp split: loop_state.splits)
  then show ?thesis by (simp add: processQueue_consistent)
next
  case (VerifyTimer tid now)
  with s obtain d where
    "q1 = fst (verifyDeviceState_begin (q\<lparr>timers := clearTimeout tid (timers q)\<rparr>) d)"
    by (auto split: option.splits)
  then show ?thesis using c by (simp add: loop_consistent_def begin_queue begin_fields)
next
  case (VerifyResume d response now)
  with s have "q1 = verifyDeviceState_resume q d response now" by simp
  then show ?thesis using c by (simp add: resume_consistent)
qed

lemma qrun_consistent:
  "loop_consistent q \<Longrightarrow> qrun q evs = Some q' \<Longrightarrow> loop_consistent q'"
proof (induction evs arbitrary: q)
  case Nil
  then show ?case by simp
next
  case (Cons e es)
  obtain q1 where s: "qstep q e = Some q1" and r: "qrun q1 es = Some q'"
    using qrun_Cons_Some[OF Cons.prems(2)] by blast
  have "loop_consistent q1" by (rule qstep_consistent[OF Cons.prems(1) s])
  then show ?case using r by (rule Cons.IH)
qed

lemma reachable_invariants:
  assumes "qrun (newApiQueue i m vd) evs = Some q"
  shows "loop_consistent q" and "distinct (map key_of (queue q))"
proof -
  show "loop_consistent q" using loop_consistent_new assms by (rule qrun_consistent)
  have "distinct (map key_of (queue (newApiQueue i m vd)))" by (simp add: newApiQueue_def)
  then show "distinct (map key_of (queue q))" using assms by (rule qrun_distinct)
qed

lemma oldest_filter:
  assumes dq: "distinct (map key_of q)" and g: "getOldestItem q = Some x"
    and ys: "filter (\<lambda>i. key_of i = k) ys = filter (\<lambda>i. key_of i = k) (queue_delete (key_of x) q)"
  shows "filter (\<lambda>i. key_of i = k) (x # ys) = filter (\<lambda>i. key_of i = k) q"
proof (cases "key_of x = k")
  case True
  have mem: "x \<in> set q" using g by (rule getOldestItem_mem)
  have "filter (\<lambda>i. key_of i = k) q = [x]"
    using filter_key_member[OF dq mem] True by simp
  moreover have "filter (\<lambda>i. key_of i = k) ys = []"
    using True by (simp add: ys filter_key_delete)
  ultimately show ?thesis using True by simp
next
  case False
  then have "k \<noteq> key_of x" by blast
  then have "filter (\<lambda>i. key_of i = k) ys = filter (\<lambda>i. key_of i = k) q"
    by (simp add: ys filter_key_delete)
  then show ?thesis using False by simp
qed

lemma continue_dispatched_key:
  assumes c: "loop_consistent q" and dq: "distinct (map key_of (queue q))"
  shows "\<exists>new. dispatched (continue_loop q now gws) = dispatched q @ new \<and>
               filter (\<lambda>i. key_of i = k) (map snd new) = filter (\<lambda>i. key_of i = k) (queue q)"
proof (cases "loop q")
  case Idle
  with c have "queue q = []" by (auto simp: loop_consistent_def)
  moreover have "continue_loop q now gws = q" using Idle by (simp add: continue_loop_def after_gate_def)
  ultimately show ?thesis by simp
next
  case (AwaitGate due)
  have ag: "after_gate q = processQueue_dispatch q due" using AwaitGate by (simp add: after_gate_def)
  show ?thesis
  proof (cases "getOldestItem (queue q)")
    case None
    then have e: "queue q = []" by (rule getOldestItem_None)
    have "continue_loop q now gws = q\<lparr>processing := False, loop := Idle\<rparr>"
      using None by (simp add: continue_loop_def ag processQueue_dispatch_def)
    then show ?thesis using e by simp
  next
    case (Some x)
    let ?A = "q\<lparr>queue := queue_delete (key_of x) (queue q), loop := AwaitSend x due,
                 dispatched := dispatched q @ [(due, x)]\<rparr>"
    let ?r = "sendRequest (maxRetries q) (gws 0) x due"
    let ?q2 = "processQueue_settled ?A x ?r"
    have a: "after_gate q = ?A" using Some by (simp add: ag processQueue_dispatch_def)
    have cl: "continue_loop q now gws = drain ?q2 (finished ?r) gws 1"
      by (simp add: continue_loop_def a)
    have d2: "distinct (map key_of (queue ?q2))"
      using dq by (simp add: processQueue_settled_fields queue_delete_distinct)
    from drain_dispatched_key[OF d2, of "finished ?r" gws 1 k] obtain new where
      n1: "dispatched (drain ?q2 (finished ?r) gws 1) = dispatched ?q2 @ new"
      and n2: "filter (\<lambda>i. key_of i = k) (map snd new) = filter (\<lambda>i. key_of i = k) (queue ?q2)"
      by blast
    have n3: "filter (\<lambda>i. key_of i = k) (map snd new) =
              filter (\<lambda>i. key_of i = k) (queue_delete (key_of x) (queue q))"
      using n2 by (simp add: processQueue_settled_fields)
    have f: "filter (\<lambda>i. key_of i = k) (x # map snd new) = filter (\<lambda>i. key_of i = k) (queue q)"
      by (rule oldest_filter[OF dq Some n3])
    have d1: "dispatched (continue_loop q now gws) = dispatched q @ ((due, x) # new)"
      unfolding cl n1 by (simp add: processQueue_settled_fields)
    have "filter (\<lambda>i. key_of i = k) (map snd ((due, x) # new)) =
          filter (\<lambda>i. key_of i = k) (queue q)"
      using f by simp
    with d1 show ?thesis by (intro exI[of _ "(due, x) # new"] conjI)
  qed
next
  case (AwaitSend item t0)
  let ?r = "sendRequest (maxRetries q) (gws 0) item t0"
  let ?q2 = "processQueue_settled q item ?r"
  have cl: "continue_loop q now gws = drain ?q2 (finished ?r) gws 1"
    using AwaitSend by (simp add: continue_loop_def after_gate_def)
  have d2: "distinct (map key_of (queue ?q2))" using dq by (simp add: processQueue_settled_fields)
  from drain_dispatched_key[OF d2, of "finished ?r" gws 1 k]
  show ?thesis by (simp add: cl processQueue_settled_fields)
next
  case AwaitImmediate
  have cl: "continue_loop q now gws = drain q now gws 0"
    using AwaitImmediate by (simp add: continue_loop_def after_gate_def)
  from drain_dispatched_key[OF dq, of now gws 0 k] show ?thesis by (simp add: cl)
qed

lemma enqueue_all_busy:
  assumes "processing q" and "distinct (map key_of (queue q))"
  shows "processing (enqueue_all q d ty vts) \<and> loop (enqueue_all q d ty vts) = loop q \<and>
         dispatched (enqueue_all q d ty vts) = dispatched q \<and>
         distinct (map key_of (queue (enqueue_all q d ty vts))) \<and>
         (vts \<noteq> [] \<longrightarrow>
            filter (\<lambda>i. key_of i = queue_key d ty) (queue (enqueue_all q d ty vts)) =
              [\<lparr>item_id = d, item_type = ty, item_value = fst (last vts), timestamp = snd (last vts)\<rparr>])"
  using assms
proof (induction vts arbitrary: q)
  case Nil
  then show ?case by simp
next
  case (Cons a vts)
  obtain v t where a: "a = (v, t)" by (cases a)
  let ?item = "\<lparr>item_id = d, item_type = ty, item_value = v, timestamp = t\<rparr>"
  let ?q1 = "enqueue q d ty v t"
  have e: "?q1 = enqueue_stored q d ty v t" using Cons.prems(1) by (simp add: enqueue_unfold)
  have p1: "processing ?q1" using Cons.prems(1) by (simp add: e enqueue_stored_fields)
  have d1: "distinct (map key_of (queue ?q1))" using Cons.prems(2) by (rule enqueue_distinct)
  have l1: "loop ?q1 = loop q" "dispatched ?q1 = dispatched q"
    by (simp_all add: e enqueue_stored_fields)
  have k: "key_of ?item = queue_key d ty" by (simp add: key_of_def)
  have f1: "filter (\<lambda>i. key_of i = queue_key d ty) (queue ?q1) = [?item]"
    using queue_set_filter_distinct[OF Cons.prems(2), of ?item]
    by (simp add: e enqueue_stored_fields k)
  note ih0 = Cons.IH[OF p1 d1]
  have ih:
    "processing (enqueue_all ?q1 d ty vts)" "loop (enqueue_all ?q1 d ty vts) = loop ?q1"
    "dispatched (enqueue_all ?q1 d ty vts) = dispatched ?q1"
    "distinct (map key_of (queue (enqueue_all ?q1 d ty vts)))"
    "vts \<noteq> [] \<longrightarrow>
       filter (\<lambda>i. key_of i = queue_key d ty) (queue (enqueue_all ?q1 d ty vts)) =
         [\<lparr>item_id = d, item_type = ty, item_value = fst (last vts), timestamp = snd (last vts)\<rparr>]"
    using ih0 by blast+
  show ?case
  proof (cases "vts = []")
    case True
    then show ?thesis using p1 d1 l1 f1 by (simp add: a)
  next
    case False
    then show ?thesis using ih l1 by (simp add: a)
  qed
qed

lemma enqueue_burst:
  assumes c: "loop_consistent q" and dq: "distinct (map key_of (queue q))"
  shows "loop_consistent (enqueue_all q d ty ((v1, t1) # rest)) \<and>
         distinct (map key_of (queue (enqueue_all q d ty ((v1, t1) # rest)))) \<and>
         filter (\<lambda>i. key_of i = queue_key d ty) (queue (enqueue_all q d ty ((v1, t1) # rest))) =
           (if (\<not> processing q \<and> lastProcessTime q + intervalMs q \<le> t1) \<and> rest = [] then []
            else [\<lparr>item_id = d, item_type = ty, item_value = fst (last ((v1, t1) # rest)),
                   timestamp = snd (last ((v1, t1) # rest))\<rparr>]) \<and>
         dispatched (enqueue_all q d ty ((v1, t1) # rest)) =
           dispatched q @
           (if \<not> processing q \<and> lastProcessTime q + intervalMs q \<le> t1
            then [(t1, \<lparr>item_id = d, item_type = ty, item_value = v1, timestamp = t1\<rparr>)] else [])"
proof -
  let ?item = "\<lparr>item_id = d, item_type = ty, item_value = v1, timestamp = t1\<rparr>"
  let ?q1 = "enqueue q d ty v1 t1"
  let ?eager = "\<not> processing q \<and> lastProcessTime q + intervalMs q \<le> t1"
  note ef = enqueue_effect[OF c, of d ty v1 t1]
  have p1: "processing ?q1" using ef by blast
  have l1: "loop ?q1 \<noteq> Idle" using ef by blast
  have qq: "queue ?q1 = (if ?eager then [] else queue_set ?item (queue q))" using ef by blast
  have dd: "dispatched ?q1 = dispatched q @ (if ?eager then [(t1, ?item)] else [])"
    using ef by blast
  have d1: "distinct (map key_of (queue ?q1))" using dq by (rule enqueue_distinct)
  have k: "key_of ?item = queue_key d ty" by (simp add: key_of_def)
  have f1: "filter (\<lambda>i. key_of i = queue_key d ty) (queue ?q1) = (if ?eager then [] else [?item])"
    using queue_set_filter_distinct[OF dq, of ?item] by (simp add: qq k)
  note b0 = enqueue_all_busy[OF p1 d1, of d ty rest]
  have b:
    "processing (enqueue_all ?q1 d ty rest)" "loop (enqueue_all ?q1 d ty rest) = loop ?q1"
    "dispatched (enqueue_all ?q1 d ty rest) = dispatched ?q1"
    "distinct (map key_of (queue (enqueue_all ?q1 d ty rest)))"
    "rest \<noteq> [] \<longrightarrow>
       filter (\<lambda>i. key_of i = queue_key d ty) (queue (enqueue_all ?q1 d ty rest)) =
         [\<lparr>item_id = d, item_type = ty, item_value = fst (last rest), timestamp = snd (last rest)\<rparr>]"
    using b0 by blast+
  have lc: "loop_consistent (enqueue_all ?q1 d ty rest)"
    using b(1) b(2) l1 by (simp add: loop_consistent_def)
  show ?thesis
  proof (cases "rest = []")
    case True
    then show ?thesis using lc d1 f1 dd by simp
  next
    case False
    then show ?thesis using lc b dd by simp
  qed
qed

lemma enqueue_pending:
  assumes c: "loop_consistent q" and dq: "distinct (map key_of (queue q))"
  shows "filter (\<lambda>i. key_of i = k)
           (queue (enqueue q d ty v t) @
            map snd (drop (length (dispatched q)) (dispatched (enqueue q d ty v t)))) =
         (if k = queue_key d ty
          then [\<lparr>item_id = d, item_type = ty, item_value = v, timestamp = t\<rparr>]
          else filter (\<lambda>i. key_of i = k) (queue q))"
proof -
  let ?item = "\<lparr>item_id = d, item_type = ty, item_value = v, timestamp = t\<rparr>"
  let ?E = "enqueue q d ty v t"
  note ef = enqueue_effect[OF c, of d ty v t]
  have k: "key_of ?item = queue_key d ty" by (simp add: key_of_def)
  show ?thesis
  proof (cases "\<not> processing q \<and> lastProcessTime q + intervalMs q \<le> t")
    case True
    with c have em: "queue q = []" by (simp add: loop_consistent_def)
    have qq: "queue ?E = []" using ef True by simp
    have dd: "dispatched ?E = dispatched q @ [(t, ?item)]" using ef True by simp
    show ?thesis unfolding qq dd using em k by simp
  next
    case False
    have qq: "queue ?E = queue_set ?item (queue q)" using ef False by auto
    have dd: "dispatched ?E = dispatched q" using ef False by auto
    show ?thesis
    proof (cases "k = queue_key d ty")
      case True
      then show ?thesis
        unfolding qq dd using queue_set_filter_distinct[OF dq, of ?item] by (simp add: k)
    next
      case ne: False
      then have "k \<noteq> key_of ?item" by (simp add: k)
      then show ?thesis
        unfolding qq dd using ne by (simp add: queue_set_filter_other)
    qed
  qed
qed

lemma resume_pending:
  assumes c: "loop_consistent q" and dq: "distinct (map key_of (queue q))"
    and ds: "deviceStates q d = Some ds"
    and q2: "q2 = verifyDeviceState_resume q d (Inr (Some resp)) now"
    and iT: "itemT = \<lparr>item_id = d, item_type = Temperature,
                       item_value = the (targetTemperatureC ds), timestamp = now\<rparr>"
    and iS: "itemS = \<lparr>item_id = d, item_type = State,
                       item_value = (if the (targetState ds) = Standby then Num 0 else Num 1),
                       timestamp = now\<rparr>"
  shows "filter (\<lambda>i. key_of i = k)
           (queue q2 @ map snd (drop (length (dispatched q)) (dispatched q2))) =
         (if temperature_mismatch ds (data resp) \<and> k = queue_key d Temperature then [itemT]
          else if state_mismatch ds (data resp) \<and> k = queue_key d State then [itemS]
          else filter (\<lambda>i. key_of i = k) (queue q))"
    and "temperature_mismatch ds (data resp) \<or> state_mismatch ds (data resp) \<Longrightarrow>
         processing q2 \<and> loop q2 \<noteq> Idle"
    and "\<not> temperature_mismatch ds (data resp) \<Longrightarrow> \<not> state_mismatch ds (data resp) \<Longrightarrow>
         q2 = q"
proof -
  let ?a = "data resp"
  let ?tm = "temperature_mismatch ds ?a"
  let ?sm = "state_mismatch ds ?a"
  let ?tv = "the (targetTemperatureC ds)"
  let ?sv = "if the (targetState ds) = Standby then Num 0 else Num 1"
  let ?qa = "q\<lparr>logged := logged q @
                 [WarnTemperatureMismatch d ?tv (set_temperature_c (control ?a))]\<rparr>"
  let ?q1 = "requeue_temperature q d ?a now"
  let ?qb = "?q1\<lparr>logged := logged ?q1 @
                 [WarnStateMismatch d (the (targetState ds)) (thermal_control_status (control ?a))]\<rparr>"
  have q1: "?q1 = (if ?tm then enqueue ?qa d Temperature ?tv now else q)"
    using ds by (simp add: requeue_temperature_def)
  have ca: "loop_consistent ?qa" using c by (simp add: loop_consistent_def)
  have da: "distinct (map key_of (queue ?qa))" using dq by simp
  have c1: "loop_consistent ?q1" using c by (rule requeue_temperature_consistent)
  have d1: "distinct (map key_of (queue ?q1))" using dq by (rule requeue_temperature_distinct)
  have cb: "loop_consistent ?qb" using c1 by (simp add: loop_consistent_def)
  have db: "distinct (map key_of (queue ?qb))" using d1 by simp
  have "\<exists>ds'. deviceStates ?q1 d = Some ds' \<and> targetState ds' = targetState ds"
  proof (cases ?tm)
    case True
    have "deviceStates ?qa d = Some ds" using ds by simp
    from enqueue_temperature_targetState[OF this, of ?tv now]
    show ?thesis using True by (simp add: q1)
  next
    case False
    then show ?thesis using ds by (simp add: q1)
  qed
  then obtain ds' where ds1: "deviceStates ?q1 d = Some ds'"
    and ts: "targetState ds' = targetState ds" by blast
  have sm1: "state_mismatch ds' ?a = ?sm" using ts by (rule state_mismatch_cong)
  have r2: "q2 = requeue_state ?q1 d ?a now"
    by (simp add: q2 verifyDeviceState_resume_def)
  have e2: "q2 = (if ?sm then enqueue ?qb d State ?sv now else ?q1)"
    unfolding r2 by (simp add: requeue_state_def ds1 sm1 ts)
  have kT: "key_of itemT = queue_key d Temperature" by (simp add: iT key_of_def)
  have kS: "key_of itemS = queue_key d State" by (simp add: iS key_of_def)
  have kne: "queue_key d Temperature \<noteq> queue_key d State" by (simp add: queue_key_inj)
  note ef1 = enqueue_effect[OF ca, of d Temperature ?tv now]
  note ef2 = enqueue_effect[OF cb, of d State ?sv now]
  note pe1 = enqueue_pending[OF ca da, of k d Temperature ?tv now]
  show "filter (\<lambda>i. key_of i = k)
           (queue q2 @ map snd (drop (length (dispatched q)) (dispatched q2))) =
         (if ?tm \<and> k = queue_key d Temperature then [itemT]
          else if ?sm \<and> k = queue_key d State then [itemS]
          else filter (\<lambda>i. key_of i = k) (queue q))"
  proof (cases ?tm)
    case ntm: False
    then have q1q: "?q1 = q" by (simp add: q1)
    show ?thesis
    proof (cases ?sm)
      case False
      then have "q2 = q" using q1q by (simp add: e2)
      then show ?thesis using ntm False by simp
    next
      case True
      let ?qc = "q\<lparr>logged := logged q @
                 [WarnStateMismatch d (the (targetState ds)) (thermal_control_status (control ?a))]\<rparr>"
      have e: "q2 = enqueue ?qc d State ?sv now" using True q1q by (simp add: e2)
      have cc: "loop_consistent ?qc" using c by (simp add: loop_consistent_def)
      have dc: "distinct (map key_of (queue ?qc))" using dq by simp
      from enqueue_pending[OF cc dc, of k d State ?sv now]
      show ?thesis using True ntm by (simp add: e iS)
    qed
  next
    case tm: True
    then have e1: "?q1 = enqueue ?qa d Temperature ?tv now" by (simp add: q1)
    show ?thesis
    proof (cases ?sm)
      case False
      then have "q2 = enqueue ?qa d Temperature ?tv now" using e1 by (simp add: e2)
      then show ?thesis using pe1 tm False by (simp add: iT)
    next
      case True
      have p1: "processing ?q1" using ef1 unfolding e1 by blast
      have dd1: "dispatched ?q1 = dispatched q @
           (if \<not> processing q \<and> lastProcessTime q + intervalMs q \<le> now
            then [(now, itemT)] else [])"
        using ef1 unfolding e1 iT by simp
      have e: "q2 = enqueue ?qb d State ?sv now" using True by (simp add: e2)
      have pb: "processing ?qb" using p1 by simp
      have qq2: "queue q2 = queue_set itemS (queue ?q1)"
        using ef2 pb unfolding e iS by simp
      have dd2: "dispatched q2 = dispatched ?q1"
        using ef2 pb unfolding e by simp
      have new1: "filter (\<lambda>i. key_of i = queue_key d State)
                    (map snd (drop (length (dispatched q)) (dispatched ?q1))) = []"
        using kT kne by (simp add: dd1)
      have pend1: "filter (\<lambda>i. key_of i = k) (queue ?q1) @
                   filter (\<lambda>i. key_of i = k) (map snd (drop (length (dispatched q)) (dispatched ?q1)))
                   = (if k = queue_key d Temperature then [itemT]
                      else filter (\<lambda>i. key_of i = k) (queue q))"
        using pe1 unfolding e1 iT by simp
      show ?thesis
      proof (cases "k = queue_key d State")
        case kk: True
        have "filter (\<lambda>i. key_of i = k) (queue q2) = [itemS]"
          unfolding qq2 using queue_set_filter_distinct[OF d1, of itemS] by (simp add: kS kk)
        then show ?thesis using new1 tm True kk kne by (simp add: dd2)
      next
        case kk: False
        then have "k \<noteq> key_of itemS" by (simp add: kS)
        then have "filter (\<lambda>i. key_of i = k) (queue q2) = filter (\<lambda>i. key_of i = k) (queue ?q1)"
          unfolding qq2 by (rule queue_set_filter_other)
        then show ?thesis using pend1 tm True kk by (simp add: dd2)
      qed
    qed
  qed
  have pr2: "processing (enqueue ?qb d State ?sv now) \<and> loop (enqueue ?qb d State ?sv now) \<noteq> Idle"
    using ef2 by blast
  have pr1: "processing (enqueue ?qa d Temperature ?tv now) \<and>
             loop (enqueue ?qa d Temperature ?tv now) \<noteq> Idle"
    using ef1 by blast
  show "?tm \<or> ?sm \<Longrightarrow> processing q2 \<and> loop q2 \<noteq> Idle"
  proof -
    assume m: "?tm \<or> ?sm"
    show "processing q2 \<and> loop q2 \<noteq> Idle"
    proof (cases ?sm)
      case True
      have "q2 = enqueue ?qb d State ?sv now" using True by (simp add: e2)
      then show "processing q2 \<and> loop q2 \<noteq> Idle" using pr2 by simp
    next
      case False
      from False m have ?tm by simp
      then have "q2 = enqueue ?qa d Temperature ?tv now" using False by (simp add: e2 q1)
      then show "processing q2 \<and> loop q2 \<noteq> Idle" using pr1 by simp
    qed
  qed
  show "\<not> ?tm \<Longrightarrow> \<not> ?sm \<Longrightarrow> q2 = q"
    by (simp add: e2 q1)
qed

lemma tolerance_finite:
  assumes "set_temperature_c (control a) = Num x" and "targetTemperatureC ds = Some (Num t)"
    and "round_double (x - t) = Num (x - t)"
  shows "temperature_mismatch ds a \<longleftrightarrow> 3602879701896397 / 36028797018963968 < \<bar>x - t\<bar>"
  using assms by (simp add: temperature_mismatch_def num_sub_def tenth_eq)

text \<open>
  C10 (as the code has it). In every state the queue can reach, no two pending items
  have the same device and field. Take a sequence of enqueues for one device and field
  with nothing else in between. Its first enqueue is handed to \<open>sendRequest\<close> at once
  when the dispatch loop is not running and the interval has passed since
  \<open>lastProcessTime\<close>; nothing else is dispatched during the sequence. Afterwards the
  queue holds, for that device and field, exactly one pending item, which carries the
  last value (and none when the only enqueue was dispatched at once). When the dispatch
  loop then runs to the end, the items for that device and field that have been handed
  to \<open>sendRequest\<close> since the start of the sequence are the first one, if it was
  dispatched at once, and the one with the last value. Every gateway call that
  \<open>sendRequest\<close> makes for an item is the call for that item's device and value, and
  it makes at least one when \<open>maxRetries\<close> is positive.
\<close>

theorem write_coalescing:
  assumes r: "qrun (newApiQueue i m vd) evs = Some q"
    and q': "q' = enqueue_all q d ty ((v1, t1) # rest)"
    and i1: "item1 = \<lparr>item_id = d, item_type = ty, item_value = v1, timestamp = t1\<rparr>"
    and iN: "itemN = \<lparr>item_id = d, item_type = ty, item_value = fst (last ((v1, t1) # rest)),
                       timestamp = snd (last ((v1, t1) # rest))\<rparr>"
    and eager: "eager = (\<not> processing q \<and> lastProcessTime q + intervalMs q \<le> t1)"
  shows "distinct (map (\<lambda>i. (item_id i, item_type i)) (queue q)) \<and>
         distinct (map (\<lambda>i. (item_id i, item_type i)) (queue q')) \<and>
         filter (\<lambda>i. item_id i = d \<and> item_type i = ty) (queue q') =
           (if eager \<and> rest = [] then [] else [itemN]) \<and>
         dispatched q' = dispatched q @ (if eager then [(t1, item1)] else []) \<and>
         (\<forall>now gws.
            filter (\<lambda>i. item_id i = d \<and> item_type i = ty)
              (map snd (drop (length (dispatched q)) (dispatched (continue_loop q' now gws)))) =
            (if eager then [item1] else []) @ (if eager \<and> rest = [] then [] else [itemN])) \<and>
         (\<forall>maxR gw item t.
            snd ` set (calls (sendRequest maxR gw item t)) \<subseteq> {gateway_call_of item} \<and>
            (0 < maxR \<longrightarrow> calls (sendRequest maxR gw item t) \<noteq> [])) \<and>
         gateway_call_of itemN =
           (case ty of
              Temperature \<Rightarrow>
                SetTemperatureFahrenheit d
                  (num_floor (num_add (num_mul (fst (last ((v1, t1) # rest))) nine_fifths) (Num 32)))
            | State \<Rightarrow>
                SetThermalControlStatus d
                  (if fst (last ((v1, t1) # rest)) = Num 0 then Standby else Active))"
proof -
  note inv = reachable_invariants[OF r]
  note b0 = enqueue_burst[OF inv, of d ty v1 t1 rest]
  have lc: "loop_consistent q'" using b0 unfolding q' by blast
  have dq': "distinct (map key_of (queue q'))" using b0 unfolding q' by blast
  have f: "filter (\<lambda>i. key_of i = queue_key d ty) (queue q') =
             (if eager \<and> rest = [] then [] else [itemN])"
    using b0 unfolding q' iN eager by blast
  have dd: "dispatched q' = dispatched q @ (if eager then [(t1, item1)] else [])"
    using b0 unfolding q' i1 eager by blast
  have a: "distinct (map (\<lambda>i. (item_id i, item_type i)) (queue q))"
    using inv(2) by (simp add: distinct_keys_fields)
  have b: "distinct (map (\<lambda>i. (item_id i, item_type i)) (queue q'))"
    using dq' by (simp add: distinct_keys_fields)
  have c: "filter (\<lambda>i. item_id i = d \<and> item_type i = ty) (queue q') =
             (if eager \<and> rest = [] then [] else [itemN])"
    using f by (simp add: key_filter_fields)
  have k1: "item_id item1 = d \<and> item_type item1 = ty" by (simp add: i1)
  have e: "\<forall>now gws.
            filter (\<lambda>i. item_id i = d \<and> item_type i = ty)
              (map snd (drop (length (dispatched q)) (dispatched (continue_loop q' now gws)))) =
            (if eager then [item1] else []) @ (if eager \<and> rest = [] then [] else [itemN])"
  proof (intro allI)
    fix now gws
    from continue_dispatched_key[OF lc dq', of now gws "queue_key d ty"] obtain new where
      n1: "dispatched (continue_loop q' now gws) = dispatched q' @ new"
      and n2: "filter (\<lambda>i. key_of i = queue_key d ty) (map snd new) =
               filter (\<lambda>i. key_of i = queue_key d ty) (queue q')"
      by blast
    have n3: "filter (\<lambda>i. item_id i = d \<and> item_type i = ty) (map snd new) =
              (if eager \<and> rest = [] then [] else [itemN])"
      using n2 f by (simp add: key_filter_fields)
    have "drop (length (dispatched q)) (dispatched (continue_loop q' now gws)) =
          (if eager then [(t1, item1)] else []) @ new"
      by (simp add: n1 dd)
    then show "filter (\<lambda>i. item_id i = d \<and> item_type i = ty)
              (map snd (drop (length (dispatched q)) (dispatched (continue_loop q' now gws)))) =
            (if eager then [item1] else []) @ (if eager \<and> rest = [] then [] else [itemN])"
      using n3 k1 by simp
  qed
  have g: "\<forall>maxR gw item t.
            snd ` set (calls (sendRequest maxR gw item t)) \<subseteq> {gateway_call_of item} \<and>
            (0 < maxR \<longrightarrow> calls (sendRequest maxR gw item t) \<noteq> [])"
  proof (intro allI conjI impI)
    fix maxR :: nat and gw :: "nat \<Rightarrow> bool \<times> nat" and item :: QueueItem and t :: int
    show "snd ` set (calls (sendRequest maxR gw item t)) \<subseteq> {gateway_call_of item}"
      unfolding sendRequest_def by (rule send_calls_item)
    assume "0 < maxR"
    from send_calls_pos[OF this, of gw item t]
    show "calls (sendRequest maxR gw item t) \<noteq> []" by (simp add: sendRequest_def)
  qed
  have h: "gateway_call_of itemN =
           (case ty of
              Temperature \<Rightarrow>
                SetTemperatureFahrenheit d
                  (num_floor (num_add (num_mul (fst (last ((v1, t1) # rest))) nine_fifths) (Num 32)))
            | State \<Rightarrow>
                SetThermalControlStatus d
                  (if fst (last ((v1, t1) # rest)) = Num 0 then Standby else Active))"
    by (cases ty) (simp_all add: gateway_call_of_def iN del: last.simps)
  show ?thesis using a b c dd e g h by (intro conjI)
qed

text \<open>
  C10 as stated fails for a sequence of enqueues on a queue whose dispatch loop is not
  running and whose interval has passed. On a new queue, temperature 20 is enqueued for
  device A at 100000 and temperature 22 at 100001, before any send has completed. The
  first enqueue is handed to \<open>sendRequest\<close> at once; the send takes 5 ms, and the
  second item is dispatched when the interval has passed, at 102005. Two calls reach the
  gateway: one for 68 degrees Fahrenheit (for 20) and one for 71 (for 22).
\<close>

theorem first_enqueue_dispatched_at_once:
  "map_option (\<lambda>q. map (\<lambda>x. (fst x, item_value (snd x))) (dispatched q))
     (qrun defaultApiQueue
        [Enqueue ''A'' Temperature (Num 20) 100000, Enqueue ''A'' Temperature (Num 22) 100001,
         SendSettled (\<lambda>n. (True, 5)), RunImmediate 100005, GateElapsed 102005])
   = Some [(100000, Num 20), (102005, Num 22)] \<and>
   calls (sendRequest 3 (\<lambda>n. (True, 5)) (sampleItem ''A'' Temperature (Num 20) 100000) 100000)
   = [(100000, SetTemperatureFahrenheit ''A'' (Num 68))] \<and>
   calls (sendRequest 3 (\<lambda>n. (True, 5)) (sampleItem ''A'' Temperature (Num 22) 100001) 102005)
   = [(102005, SetTemperatureFahrenheit ''A'' (Num 71))]"
  by (simp add: defaultApiQueue_def newApiQueue_def enqueue_def updateDesiredState_def
      scheduleVerification_def processQueue_def processQueue_dispatch_def getOldestItem_def
      queue_delete_def key_of_def queue_key_def processQueue_settled_def sendRequest_def
      send_ok sampleItem_def gateway_call_of_def fahrenheit_20 fahrenheit_22 Let_def)

theorem write_coalescing_witness:
  "qrun (newApiQueue 2000 3 30000) [] = Some defaultApiQueue \<and>
   \<not> processing defaultApiQueue \<and>
   lastProcessTime defaultApiQueue + intervalMs defaultApiQueue \<le> 100000 \<and>
   filter (\<lambda>i. item_id i = ''A'' \<and> item_type i = Temperature)
     (queue (enqueue_all defaultApiQueue ''A'' Temperature
        [(Num 20, 100000), (Num 21, 100001), (Num 22, 100002)]))
     = [\<lparr>item_id = ''A'', item_type = Temperature, item_value = Num 22, timestamp = 100002\<rparr>] \<and>
   dispatched (enqueue_all defaultApiQueue ''A'' Temperature
        [(Num 20, 100000), (Num 21, 100001), (Num 22, 100002)])
     = [(100000, \<lparr>item_id = ''A'', item_type = Temperature, item_value = Num 20,
                   timestamp = 100000\<rparr>)] \<and>
   filter (\<lambda>i. item_id i = ''A'' \<and> item_type i = Temperature)
     (map snd (dispatched (continue_loop
        (enqueue_all defaultApiQueue ''A'' Temperature
           [(Num 20, 100000), (Num 21, 100001), (Num 22, 100002)])
        100005 (\<lambda>n k. (True, 5)))))
     = [\<lparr>item_id = ''A'', item_type = Temperature, item_value = Num 20, timestamp = 100000\<rparr>,
        \<lparr>item_id = ''A'', item_type = Temperature, item_value = Num 22, timestamp = 100002\<rparr>] \<and>
   gateway_call_of
     \<lparr>item_id = ''A'', item_type = Temperature, item_value = Num 22, timestamp = 100002\<rparr>
     = SetTemperatureFahrenheit ''A'' (Num 71)"
proof -
  have r: "qrun (newApiQueue 2000 3 30000) [] = Some defaultApiQueue"
    by (simp add: defaultApiQueue_def)
  have p: "\<not> processing defaultApiQueue"
    "lastProcessTime defaultApiQueue + intervalMs defaultApiQueue \<le> 100000"
    "dispatched defaultApiQueue = []"
    by (simp_all add: defaultApiQueue_def newApiQueue_def)
  from write_coalescing[OF r refl refl refl refl,
      of "''A''" Temperature "Num 20" 100000 "[(Num 21, 100001), (Num 22, 100002)]"]
  show ?thesis using r p by (simp add: fahrenheit_22)
qed

text \<open>
  The interval gate is measured from \<open>lastProcessTime\<close>: \<open>processQueue\<close> dispatches
  at once only when the interval has passed since then, and otherwise waits until
  exactly that time.
\<close>

lemma processQueue_gate:
  "(dispatched (processQueue q now) \<noteq> dispatched q \<longrightarrow>
      lastProcessTime q + intervalMs q \<le> now) \<and>
   (\<forall>due. queue q \<noteq> [] \<and> loop (processQueue q now) = AwaitGate due \<longrightarrow>
      due = lastProcessTime q + intervalMs q \<and> now < due)"
proof -
  from processQueue_cases[of q now] show ?thesis
  proof (elim disjE conjE)
    assume "queue q = []" "processQueue q now = q\<lparr>processing := False, loop := Idle\<rparr>"
    then show ?thesis by simp
  next
    assume "0 < intervalMs q - (now - lastProcessTime q)"
      "processQueue q now =
        q\<lparr>processing := True, loop := AwaitGate (now + (intervalMs q - (now - lastProcessTime q)))\<rparr>"
    then show ?thesis by simp
  next
    assume w: "\<not> 0 < intervalMs q - (now - lastProcessTime q)"
      and e: "processQueue q now = processQueue_dispatch (q\<lparr>processing := True\<rparr>) now"
    have "\<And>due. loop (processQueue_dispatch (q\<lparr>processing := True\<rparr>) now) \<noteq> AwaitGate due"
      by (cases "getOldestItem (queue q)") (simp_all add: processQueue_dispatch_def)
    then show ?thesis using w e by simp
  qed
qed

text \<open>
  C4 fails on the code after a dispatch that exhausted its retries. With an interval of
  10000 ms, the write for device A is dispatched at 100000 and fails three times (calls at
  100000, 102000 and 106000); \<open>lastProcessTime\<close> is not updated on that path, so the
  write for device B is dispatched at 106000: 6000 ms after the previous dispatch began
  and 0 ms after its last gateway call.
\<close>

theorem failed_dispatch_skips_interval:
  "map_option (\<lambda>q. (intervalMs q, map fst (dispatched q), map (item_id \<circ> snd) (dispatched q)))
     (qrun slowQueue
        [Enqueue ''A'' Temperature (Num 20) 100000, Enqueue ''B'' Temperature (Num 21) 100001,
         SendSettled always_failing, RunImmediate 106000])
   = Some (10000, [100000, 106000], [''A'', ''B'']) \<and>
   map fst (calls (sendRequest 3 always_failing (sampleItem ''A'' Temperature (Num 20) 100000) 100000))
   = [100000, 102000, 106000]"
  by (simp add: slowQueue_def newApiQueue_def enqueue_def updateDesiredState_def
      scheduleVerification_def processQueue_def processQueue_dispatch_def getOldestItem_def
      queue_delete_def key_of_def queue_key_def processQueue_settled_def send_three_failures
      Let_def)

lemma round_double_221: "round_double (221 / 10) = Num (3110298492652749 / 140737488355328)"
  by (subst round_double_at[of 4]) (simp_all add: pow2_def round_half_even_def)

lemma round_double_tenth_ulp:
  "round_double (14073748835533 / 140737488355328) = Num (14073748835533 / 140737488355328)"
  by (subst round_double_at[of "- 4"]) (simp_all add: pow2_def round_half_even_def)

lemma round_double_zero: "round_double 0 = Num 0"
  by (simp add: round_double_def Let_def round_half_even_def pow2_def)

text \<open>
  Examples of the arithmetic. The double nearest to 22.1 differs from 22 by more than
  the double nearest to 0.1, although 22.1 - 22 is not more than 0.1. For the Celsius
  value 0.5555555555555555 the sum \<open>value * (9 / 5) + 32\<close> rounds to 33, although in
  exact arithmetic it is less than 33.
\<close>

lemma tolerance_example:
  "num_gt (num_abs (num_sub (round_double (221 / 10)) (Num 22))) tenth \<and>
   \<not> num_gt (num_abs (num_sub (Num 22) (Num 22))) tenth \<and>
   \<not> num_gt (num_abs (num_sub (Num 22) NaN)) tenth"
  by (simp add: round_double_221 num_sub_def round_double_tenth_ulp round_double_zero tenth_eq)

lemma fahrenheit_rounding_example:
  "num_floor (num_add (num_mul (Num (5003999585967217 / 9007199254740992)) nine_fifths) (Num 32))
     = Num 33 \<and>
   \<lfloor>(5003999585967217 / 9007199254740992) * (9 / 5) + (32 :: real)\<rfloor> = 32"
proof -
  have a: "num_mul (Num (5003999585967217 / 9007199254740992)) nine_fifths =
           Num (9007199254740991 / 9007199254740992)"
    unfolding nine_fifths_eq num_mul.simps
    by (subst round_double_at[of "- 1"]) (simp_all add: pow2_def round_half_even_def)
  have b: "round_double (297237575406452735 / 9007199254740992) = Num 33"
    by (subst round_double_at[of 5]) (simp_all add: pow2_def round_half_even_def)
  show ?thesis by (simp add: a b)
qed

lemma verifyQueue_fields:
  "deviceStates verifyQueue ''A'' =
     Some \<lparr>targetTemperatureC = Some (Num 22), targetState = Some Active, lastModified = 100001,
           verificationTimerId = Some 1\<rparr>"
  "cachesById verifyQueue ''A'' = Some 7"
  "queue verifyQueue =
     [\<lparr>item_id = ''A'', item_type = State, item_value = Num 1, timestamp = 100001\<rparr>]"
  "dispatched verifyQueue =
     [(100000, \<lparr>item_id = ''A'', item_type = Temperature, item_value = Num 22,
                 timestamp = 100000\<rparr>)]"
  by (simp_all add: verifyQueue_def registerCache_def defaultApiQueue_def newApiQueue_def
      enqueue_def updateDesiredState_def scheduleVerification_def processQueue_def
      processQueue_dispatch_def getOldestItem_def queue_delete_def key_of_def queue_key_def
      clearTimeout_def Let_def)

lemma unregisteredQueue_fields:
  "deviceStates unregisteredQueue ''B'' =
     Some \<lparr>targetTemperatureC = None, targetState = Some Standby, lastModified = 100000,
           verificationTimerId = Some 0\<rparr>"
  "cachesById unregisteredQueue ''B'' = None"
  "logged unregisteredQueue = []"
  by (simp_all add: unregisteredQueue_def defaultApiQueue_def newApiQueue_def
      enqueue_def updateDesiredState_def scheduleVerification_def processQueue_def
      processQueue_dispatch_def getOldestItem_def queue_delete_def key_of_def queue_key_def
      clearTimeout_def Let_def)

text \<open>
  C6. Take a state the queue can reach in which a desired state is recorded for the
  device. When the verification timer fires and no cache is registered for the device,
  \<open>verifyDeviceState\<close> clears the timer handle, logs a warning and ends: the queue and
  the dispatch loop are as before. When a cache is registered it awaits the
  \<open>refresh()\<close> of that cache. When the refresh has returned a status, the temperature
  counts as mismatched iff a desired temperature is set and the absolute difference of
  the actual and the desired value, computed in double arithmetic, is greater than the
  double nearest to 0.1 (for finite values whose difference is a double: iff that
  difference is greater than 3602879701896397 / 36028797018963968 in absolute value);
  the mode counts as mismatched iff a desired mode is set and differs from the actual
  one. Afterwards, for every device and field, the items that are pending in the queue
  or have been handed to \<open>sendRequest\<close> since are: for a mismatched field of the
  device, exactly one item, which carries the desired value; for any other device and
  field, what was pending before. With a mismatch the dispatch loop is under way; with
  none the state of the queue is unchanged.
\<close>

theorem verification_requeues:
  assumes r: "qrun (newApiQueue i m vd) evs = Some q"
    and ds: "deviceStates q d = Some ds"
    and q2: "q2 = verifyDeviceState_resume q d (Inr (Some resp)) now"
    and iT: "itemT = \<lparr>item_id = d, item_type = Temperature,
                       item_value = the (targetTemperatureC ds), timestamp = now\<rparr>"
    and iS: "itemS = \<lparr>item_id = d, item_type = State,
                       item_value = (if the (targetState ds) = Standby then Num 0 else Num 1),
                       timestamp = now\<rparr>"
  shows
    "(cachesById q d = None \<longrightarrow>
        verifyDeviceState_begin q d =
          (q\<lparr>deviceStates := (deviceStates q)(d := Some (ds\<lparr>verificationTimerId := None\<rparr>)),
             logged := logged q @ [WarnNoCache d]\<rparr>, Skipped)) \<and>
     (\<forall>c. cachesById q d = Some c \<longrightarrow>
        verifyDeviceState_begin q d =
          (q\<lparr>deviceStates := (deviceStates q)(d := Some (ds\<lparr>verificationTimerId := None\<rparr>))\<rparr>,
           AwaitRefresh c)) \<and>
     (temperature_mismatch ds (data resp) \<longleftrightarrow>
        (\<exists>t. targetTemperatureC ds = Some t \<and>
             num_gt (num_abs (num_sub (set_temperature_c (control (data resp))) t)) tenth)) \<and>
     (\<forall>x t. set_temperature_c (control (data resp)) = Num x \<and>
            targetTemperatureC ds = Some (Num t) \<and> round_double (x - t) = Num (x - t) \<longrightarrow>
            (temperature_mismatch ds (data resp) \<longleftrightarrow>
               3602879701896397 / 36028797018963968 < \<bar>x - t\<bar>)) \<and>
     (state_mismatch ds (data resp) \<longleftrightarrow>
        (\<exists>m. targetState ds = Some m \<and> thermal_control_status (control (data resp)) \<noteq> m)) \<and>
     (\<forall>d' ty.
        filter (\<lambda>i. item_id i = d' \<and> item_type i = ty)
          (queue q2 @ map snd (drop (length (dispatched q)) (dispatched q2))) =
        (if temperature_mismatch ds (data resp) \<and> d' = d \<and> ty = Temperature then [itemT]
         else if state_mismatch ds (data resp) \<and> d' = d \<and> ty = State then [itemS]
         else filter (\<lambda>i. item_id i = d' \<and> item_type i = ty) (queue q))) \<and>
     (temperature_mismatch ds (data resp) \<or> state_mismatch ds (data resp) \<longrightarrow>
        processing q2 \<and> loop q2 \<noteq> Idle) \<and>
     (\<not> temperature_mismatch ds (data resp) \<and> \<not> state_mismatch ds (data resp) \<longrightarrow> q2 = q)"
proof -
  note inv = reachable_invariants[OF r]
  note rp = resume_pending[OF inv ds q2 iT iS]
  have a: "cachesById q d = None \<longrightarrow>
        verifyDeviceState_begin q d =
          (q\<lparr>deviceStates := (deviceStates q)(d := Some (ds\<lparr>verificationTimerId := None\<rparr>)),
             logged := logged q @ [WarnNoCache d]\<rparr>, Skipped)"
    using ds by (simp add: verifyDeviceState_begin_def Let_def)
  have b: "\<forall>c. cachesById q d = Some c \<longrightarrow>
        verifyDeviceState_begin q d =
          (q\<lparr>deviceStates := (deviceStates q)(d := Some (ds\<lparr>verificationTimerId := None\<rparr>))\<rparr>,
           AwaitRefresh c)"
    using ds by (simp add: verifyDeviceState_begin_def Let_def)
  have c: "temperature_mismatch ds (data resp) \<longleftrightarrow>
        (\<exists>t. targetTemperatureC ds = Some t \<and>
             num_gt (num_abs (num_sub (set_temperature_c (control (data resp))) t)) tenth)"
    by (rule temperature_mismatch_iff)
  have e: "\<forall>x t. set_temperature_c (control (data resp)) = Num x \<and>
            targetTemperatureC ds = Some (Num t) \<and> round_double (x - t) = Num (x - t) \<longrightarrow>
            (temperature_mismatch ds (data resp) \<longleftrightarrow>
               3602879701896397 / 36028797018963968 < \<bar>x - t\<bar>)"
    using tolerance_finite by blast
  have f: "state_mismatch ds (data resp) \<longleftrightarrow>
        (\<exists>m. targetState ds = Some m \<and> thermal_control_status (control (data resp)) \<noteq> m)"
    by (rule state_mismatch_iff)
  have g: "\<forall>d' ty.
        filter (\<lambda>i. item_id i = d' \<and> item_type i = ty)
          (queue q2 @ map snd (drop (length (dispatched q)) (dispatched q2))) =
        (if temperature_mismatch ds (data resp) \<and> d' = d \<and> ty = Temperature then [itemT]
         else if state_mismatch ds (data resp) \<and> d' = d \<and> ty = State then [itemS]
         else filter (\<lambda>i. item_id i = d' \<and> item_type i = ty) (queue q))"
  proof (intro allI)
    fix d' ty
    from rp(1)[of "queue_key d' ty"]
    show "filter (\<lambda>i. item_id i = d' \<and> item_type i = ty)
          (queue q2 @ map snd (drop (length (dispatched q)) (dispatched q2))) =
        (if temperature_mismatch ds (data resp) \<and> d' = d \<and> ty = Temperature then [itemT]
         else if state_mismatch ds (data resp) \<and> d' = d \<and> ty = State then [itemS]
         else filter (\<lambda>i. item_id i = d' \<and> item_type i = ty) (queue q))"
      unfolding key_filter_fields by (simp add: queue_key_inj)
  qed
  have h: "temperature_mismatch ds (data resp) \<or> state_mismatch ds (data resp) \<longrightarrow>
        processing q2 \<and> loop q2 \<noteq> Idle"
    using rp(2) by blast
  have k: "\<not> temperature_mismatch ds (data resp) \<and> \<not> state_mismatch ds (data resp) \<longrightarrow> q2 = q"
    using rp(3) by blast
  show ?thesis using a b c e f g h k by (intro conjI)
qed

theorem verification_requeues_witness:
  "qrun (newApiQueue 2000 3 30000)
     [RegisterCache ''A'' 7, Enqueue ''A'' Temperature (Num 22) 100000,
      Enqueue ''A'' State (Num 1) 100001] = Some verifyQueue \<and>
   deviceStates verifyQueue ''A'' =
     Some \<lparr>targetTemperatureC = Some (Num 22), targetState = Some Active, lastModified = 100001,
           verificationTimerId = Some 1\<rparr> \<and>
   snd (verifyDeviceState_begin verifyQueue ''A'') = AwaitRefresh 7 \<and>
   filter (\<lambda>i. item_id i = ''A'' \<and> item_type i = Temperature)
     (queue (verifyDeviceState_resume verifyQueue ''A''
               (Inr (Some (sampleResponse (round_double (221 / 10)) Active))) 130001) @
      map snd (drop (length (dispatched verifyQueue))
        (dispatched (verifyDeviceState_resume verifyQueue ''A''
               (Inr (Some (sampleResponse (round_double (221 / 10)) Active))) 130001))))
     = [\<lparr>item_id = ''A'', item_type = Temperature, item_value = Num 22, timestamp = 130001\<rparr>] \<and>
   filter (\<lambda>i. item_id i = ''A'' \<and> item_type i = State)
     (queue (verifyDeviceState_resume verifyQueue ''A''
               (Inr (Some (sampleResponse (round_double (221 / 10)) Active))) 130001) @
      map snd (drop (length (dispatched verifyQueue))
        (dispatched (verifyDeviceState_resume verifyQueue ''A''
               (Inr (Some (sampleResponse (round_double (221 / 10)) Active))) 130001))))
     = [\<lparr>item_id = ''A'', item_type = State, item_value = Num 1, timestamp = 100001\<rparr>] \<and>
   verifyDeviceState_resume verifyQueue ''A'' (Inr (Some (sampleResponse (Num 22) Active))) 130001
     = verifyQueue \<and>
   qrun (newApiQueue 2000 3 30000) [Enqueue ''B'' State (Num 0) 100000] = Some unregisteredQueue \<and>
   snd (verifyDeviceState_begin unregisteredQueue ''B'') = Skipped \<and>
   queue (fst (verifyDeviceState_begin unregisteredQueue ''B'')) = queue unregisteredQueue \<and>
   logged (fst (verifyDeviceState_begin unregisteredQueue ''B'')) = [WarnNoCache ''B'']"
proof -
  let ?ds = "\<lparr>targetTemperatureC = Some (Num 22), targetState = Some Active,
              lastModified = 100001, verificationTimerId = Some (1 :: nat)\<rparr>"
  have r: "qrun (newApiQueue 2000 3 30000)
     [RegisterCache ''A'' 7, Enqueue ''A'' Temperature (Num 22) 100000,
      Enqueue ''A'' State (Num 1) 100001] = Some verifyQueue"
    by (simp add: verifyQueue_def defaultApiQueue_def)
  have ds: "deviceStates verifyQueue ''A'' = Some ?ds" by (rule verifyQueue_fields(1))
  have tm: "temperature_mismatch ?ds (data (sampleResponse (round_double (221 / 10)) Active))"
    using tolerance_example by (simp add: temperature_mismatch_def sampleResponse_def)
  have sm: "\<not> state_mismatch ?ds (data (sampleResponse (round_double (221 / 10)) Active))"
    by (simp add: state_mismatch_def sampleResponse_def)
  have tm2: "\<not> temperature_mismatch ?ds (data (sampleResponse (Num 22) Active))"
    using tolerance_example by (simp add: temperature_mismatch_def sampleResponse_def)
  have sm2: "\<not> state_mismatch ?ds (data (sampleResponse (Num 22) Active))"
    by (simp add: state_mismatch_def sampleResponse_def)
  note t1 = verification_requeues[OF r ds refl refl refl,
      of "sampleResponse (round_double (221 / 10)) Active" 130001]
  note t2 = verification_requeues[OF r ds refl refl refl, of "sampleResponse (Num 22) Active" 130001]
  have b: "snd (verifyDeviceState_begin verifyQueue ''A'') = AwaitRefresh 7"
    using t1 verifyQueue_fields(2) by simp
  have x1: "filter (\<lambda>i. item_id i = ''A'' \<and> item_type i = Temperature)
     (queue (verifyDeviceState_resume verifyQueue ''A''
               (Inr (Some (sampleResponse (round_double (221 / 10)) Active))) 130001) @
      map snd (drop (length (dispatched verifyQueue))
        (dispatched (verifyDeviceState_resume verifyQueue ''A''
               (Inr (Some (sampleResponse (round_double (221 / 10)) Active))) 130001))))
     = [\<lparr>item_id = ''A'', item_type = Temperature, item_value = Num 22, timestamp = 130001\<rparr>]"
    using t1 tm by simp
  have x2: "filter (\<lambda>i. item_id i = ''A'' \<and> item_type i = State)
     (queue (verifyDeviceState_resume verifyQueue ''A''
               (Inr (Some (sampleResponse (round_double (221 / 10)) Active))) 130001) @
      map snd (drop (length (dispatched verifyQueue))
        (dispatched (verifyDeviceState_resume verifyQueue ''A''
               (Inr (Some (sampleResponse (round_double (221 / 10)) Active))) 130001))))
     = [\<lparr>item_id = ''A'', item_type = State, item_value = Num 1, timestamp = 100001\<rparr>]"
    using t1 sm by (simp add: verifyQueue_fields)
  have x3: "verifyDeviceState_resume verifyQueue ''A''
              (Inr (Some (sampleResponse (Num 22) Active))) 130001 = verifyQueue"
    using t2 tm2 sm2 by blast
  have r': "qrun (newApiQueue 2000 3 30000) [Enqueue ''B'' State (Num 0) 100000]
              = Some unregisteredQueue"
    by (simp add: unregisteredQueue_def defaultApiQueue_def)
  note t3 = verification_requeues[OF r' unregisteredQueue_fields(1) refl refl refl,
      of "sampleResponse (Num 22) Active" 130001]
  have y: "snd (verifyDeviceState_begin unregisteredQueue ''B'') = Skipped"
    "queue (fst (verifyDeviceState_begin unregisteredQueue ''B'')) = queue unregisteredQueue"
    "logged (fst (verifyDeviceState_begin unregisteredQueue ''B'')) = [WarnNoCache ''B'']"
    using t3 unregisteredQueue_fields(2) unregisteredQueue_fields(3) by simp_all
  show ?thesis using r ds b x1 x2 x3 r' y by (intro conjI)
qed

end
